theory Spec2Isabelle
  imports Complex_Main "HOL-Library.Word" "HOL-Library.Sublist"
begin

unbundle bit_operations_syntax

section \<open>Constants\<close>

text \<open>
  The macros of \<^verbatim>\<open>candump.c\<close> itself.
\<close>

definition FRAME_BUFFER_SIZE :: nat where
  "FRAME_BUFFER_SIZE = 256"

definition CAN_EXTENDED_ID_MASK :: "32 word" where
  "CAN_EXTENDED_ID_MASK = 0x1FFFFFFF"

definition MAXIFNAMES :: nat where
  "MAXIFNAMES = 30"


definition SILENT_ANI :: nat where
  "SILENT_ANI = 1"

definition SILENT_ON :: nat where
  "SILENT_ON = 2"

text \<open>
  \<^verbatim>\<open>#define DEFAULT_TIMEOUT 0.2\<close>: a decimal floating constant. Its value is kept as
  the exact rational; the \<^verbatim>\<open>double\<close> nearest to it lies strictly between 0 and 1
  as well, which is all the conversion below looks at.
\<close>

definition DEFAULT_TIMEOUT :: rat where
  "DEFAULT_TIMEOUT = 2 / 10"

text \<open>
  The constants of the kernel headers \<^verbatim>\<open><linux/can.h>\<close> and \<^verbatim>\<open><errno.h>\<close>, which
  the source includes and the repository does not hold. The values are those of the
  Linux user-space ABI: the three flag bits above the 29 identifier bits of a
  \<^verbatim>\<open>canid_t\<close>, the sizes of \<^verbatim>\<open>struct can_frame\<close> and \<^verbatim>\<open>struct canfd_frame\<close>, and
  the payload limits.
\<close>

definition CAN_EFF_FLAG :: "32 word" where
  "CAN_EFF_FLAG = 0x80000000"

definition CAN_RTR_FLAG :: "32 word" where
  "CAN_RTR_FLAG = 0x40000000"

definition CAN_ERR_FLAG :: "32 word" where
  "CAN_ERR_FLAG = 0x20000000"

definition CAN_INV_FILTER :: "32 word" where
  "CAN_INV_FILTER = 0x20000000"

definition CAN_MTU :: nat where
  "CAN_MTU = 16"

definition CANFD_MTU :: nat where
  "CANFD_MTU = 72"

definition CAN_MAX_DLEN :: nat where
  "CAN_MAX_DLEN = 8"

definition CANFD_MAX_DLEN :: nat where
  "CANFD_MAX_DLEN = 64"

definition ENETDOWN :: int where
  "ENETDOWN = 100"

text \<open>
  The ways a run of the program ends other than by its normal return:
  \<^verbatim>\<open>return (_raise_system_error())\<close>; \<^verbatim>\<open>exit(1)\<close>, with the diagnostic written to
  \<^verbatim>\<open>stderr\<close> before it; and \<open>Undefined\<close>, a step C gives no meaning to (a store
  past the end of an array, a \<^verbatim>\<open>scanf\<close> conversion whose result does not fit its
  object).
\<close>

datatype error = SystemError | Exit1 string | Undefined

section \<open>The wait of the capture loop\<close>

text \<open>
  \<^verbatim>\<open>num_events = epoll_wait(fd_epoll, events_pending, total_devices, DEFAULT_TIMEOUT);\<close>
  The fourth parameter of \<^verbatim>\<open>epoll_wait\<close> is an \<^verbatim>\<open>int\<close>, a number of milliseconds.
  The argument is a \<^verbatim>\<open>double\<close>, so C converts it, dropping the fractional part
  (truncation towards zero).
\<close>

definition double_to_int :: "rat \<Rightarrow> int" where
  "double_to_int x = (if 0 \<le> x then \<lfloor>x\<rfloor> else \<lceil>x\<rceil>)"

definition epoll_wait_timeout :: int where
  "epoll_wait_timeout = double_to_int DEFAULT_TIMEOUT"

section \<open>The size check on a received frame\<close>

text \<open>
  The settings of \<^verbatim>\<open>loop\<close> that are local variables with a fixed initial value
  and no later assignment.
\<close>

definition down_causes_exit :: bool where
  "down_causes_exit = True"

definition silent :: nat where
  "silent = SILENT_ON"

definition log_enabled :: bool where
  "log_enabled = False"

definition dropmonitor :: bool where
  "dropmonitor = False"

text \<open>
  Lines 666 to 682: what the loop does with the return value of \<^verbatim>\<open>recvmsg\<close>.
  \<^verbatim>\<open>Continue\<close> is the \<^verbatim>\<open>continue\<close> of the interface-down branch, \<^verbatim>\<open>Decode m\<close>
  goes on with \<^verbatim>\<open>maxdlen = m\<close>.
\<close>

datatype recv_outcome = Continue | Decode nat

definition check_received :: "bool \<Rightarrow> int \<Rightarrow> int \<Rightarrow> error + recv_outcome" where
  "check_received dce errno nbytes =
     (if nbytes < 0 then
        (if errno = ENETDOWN \<and> \<not> dce then Inr Continue else Inl SystemError)
      else if nat nbytes = CAN_MTU then Inr (Decode CAN_MAX_DLEN)
      else if nat nbytes = CANFD_MTU then Inr (Decode CANFD_MAX_DLEN)
      else Inl SystemError)"

section \<open>The frame ring buffer\<close>

text \<open>
  \<^verbatim>\<open>struct timeval\<close>: two \<^verbatim>\<open>long\<close>s, 64 bits each on the Linux targets of the
  program, read as signed.
\<close>

record timeval =
  tv_sec :: "64 word"
  tv_usec :: "64 word"

text \<open>
  The timestamp of a slot is a C \<^verbatim>\<open>double\<close>. A finite \<^verbatim>\<open>double\<close> is a rational
  number, and the model keeps it as that number. \<open>to_double\<close> rounds a rational
  to the nearest \<^verbatim>\<open>double\<close>, ties to the even significand, as the conversions
  and the arithmetic of IEEE 754 binary64 do in the default rounding mode:
  \<open>binade x\<close> is the exponent \<open>e\<close> with \<open>2 ^ e \<le> \<bar>x\<bar> < 2 ^ (e + 1)\<close>, and the
  significand has 53 bits. Overflow and subnormal numbers are left out: the
  values that occur, built from two 64-bit integers, stay between \<open>10 ^ - 6\<close>
  and \<open>2 ^ 64\<close> in size. \<open>timestamp_of\<close> is the expression
  \<^verbatim>\<open>(double) tv.tv_sec + (double) tv.tv_usec / 1E6\<close> of line 743, each conversion
  and each operation rounded (the constant \<^verbatim>\<open>1E6\<close> is a \<^verbatim>\<open>double\<close> exactly).
\<close>

definition pow2 :: "int \<Rightarrow> rat" where
  "pow2 e = (if 0 \<le> e then 2 ^ nat e else 1 / 2 ^ nat (- e))"

function bitlen :: "int \<Rightarrow> int" where
  "bitlen n = (if 0 < n then 1 + bitlen (n div 2) else 0)"
  by pat_completeness auto
termination
  by (relation "measure nat") auto

declare bitlen.simps [simp del]

definition binade :: "rat \<Rightarrow> int" where
  "binade x =
     (let (a, b) = quotient_of \<bar>x\<bar>;
          d = bitlen a - bitlen b
      in if pow2 d \<le> \<bar>x\<bar> then d else d - 1)"

definition round_even :: "rat \<Rightarrow> int" where
  "round_even q =
     (let f = \<lfloor>q\<rfloor>; r = q - of_int f
      in if r < 1 / 2 then f
         else if 1 / 2 < r then f + 1
         else if even f then f else f + 1)"

definition to_double :: "rat \<Rightarrow> rat" where
  "to_double x =
     (if x = 0 then 0
      else (let u = pow2 (binade x - 52) in of_int (round_even (x / u)) * u))"

definition timestamp_of :: "timeval \<Rightarrow> rat" where
  "timestamp_of tv =
     to_double (to_double (of_int (sint (tv_sec tv)))
                + to_double (to_double (of_int (sint (tv_usec tv))) / 1000000))"

text \<open>
  \<^verbatim>\<open>struct canframe\<close> (a slot of the buffer) and the fields of the kernel's
  \<^verbatim>\<open>struct canfd_frame\<close> that the loop reads. The \<^verbatim>\<open>len\<close> and \<^verbatim>\<open>data\<close> of the
  received frame are named \<open>fd_len\<close> and \<open>fd_data\<close>, since the slot has fields of
  the same names.
\<close>

record canframe =
  timestamp :: rat
  len :: "8 word"
  arbitration_id :: "32 word"
  data :: "8 word list"

record canfd_frame =
  can_id :: "32 word"
  fd_len :: "8 word"
  fd_flags :: "8 word"
  fd_data :: "8 word list"

text \<open>
  The globals the buffer lives in: \<^verbatim>\<open>frame_buffer\<close>, \<^verbatim>\<open>buffer_ptr\<close>, \<^verbatim>\<open>read_ptr\<close>,
  and the stop flag \<^verbatim>\<open>running\<close>. A C program starts with its statics as
  initialised: the buffer all zero, both cursors 0, \<^verbatim>\<open>running = 1\<close>.
\<close>

record candump =
  frame_buffer :: "canframe list"
  buffer_ptr :: nat
  read_ptr :: nat
  running :: int

definition zero_frame :: canframe where
  "zero_frame = \<lparr>timestamp = 0, len = 0, arbitration_id = 0, data = replicate 8 0\<rparr>"

definition start_state :: candump where
  "start_state =
     \<lparr>frame_buffer = replicate FRAME_BUFFER_SIZE zero_frame,
      buffer_ptr = 0, read_ptr = 0, running = 1\<rparr>"

text \<open>
  \<^verbatim>\<open>init_buffer\<close>, which \<^verbatim>\<open>loop\<close> calls first, clears every slot and touches neither
  cursor; on the start state it changes nothing.
\<close>

definition init_buffer :: "candump \<Rightarrow> candump" where
  "init_buffer st =
     st\<lparr>frame_buffer :=
          map (\<lambda>f. f\<lparr>timestamp := 0, len := 0, arbitration_id := 0,
                       data := replicate 8 0\<rparr>)
            (frame_buffer st)\<rparr>"

text \<open>
  Lines 737 to 744 of \<^verbatim>\<open>loop\<close>, the push: the slot under \<^verbatim>\<open>buffer_ptr\<close> takes
  the masked identifier, the length, the first \<^verbatim>\<open>len\<close> payload bytes (\<^verbatim>\<open>memcpy\<close>
  leaves the slot's other bytes as they were) and the timestamp, and the write
  cursor moves on, with no look at \<^verbatim>\<open>read_ptr\<close>. A length above 8 makes
  \<^verbatim>\<open>memcpy\<close> write past \<^verbatim>\<open>data[8]\<close>: that is \<open>Undefined\<close>.
\<close>

definition register_frame :: "candump \<Rightarrow> canfd_frame \<Rightarrow> timeval \<Rightarrow> error + candump" where
  "register_frame st frame tv =
     (let n = unat (fd_len frame);
          slot = frame_buffer st ! buffer_ptr st
      in if 8 < n then Inl Undefined
         else Inr (st\<lparr>frame_buffer := (frame_buffer st)[buffer_ptr st :=
                        slot\<lparr>arbitration_id := can_id frame AND CAN_EXTENDED_ID_MASK,
                             len := fd_len frame,
                             data := take n (fd_data frame) @ drop n (data slot),
                             timestamp := timestamp_of tv\<rparr>],
                      buffer_ptr := (buffer_ptr st + 1) mod FRAME_BUFFER_SIZE\<rparr>))"

text \<open>
  \<^verbatim>\<open>get_frame_from_buffer\<close>, the pop. The Python tuple is the four values the
  function hands to \<^verbatim>\<open>Py_BuildValue\<close>: the slot's identifier, its length, the first
  \<^verbatim>\<open>len\<close> bytes of its data and its timestamp; \<open>None\<close> stands for Python's
  \<^verbatim>\<open>None\<close>.
\<close>

type_synonym pyframe = "32 word \<times> 8 word \<times> 8 word list \<times> rat"

definition get_frame_from_buffer :: "candump \<Rightarrow> pyframe option \<times> candump" where
  "get_frame_from_buffer st =
     (if read_ptr st = buffer_ptr st then (None, st)
      else
        (let slot = frame_buffer st ! read_ptr st
         in (Some (arbitration_id slot, len slot, take (unat (len slot)) (data slot),
                   timestamp slot),
             st\<lparr>read_ptr := (read_ptr st + 1) mod FRAME_BUFFER_SIZE\<rparr>)))"

text \<open>\<^verbatim>\<open>terminate\<close>: clears the stop flag and returns \<^verbatim>\<open>None\<close>.\<close>

definition terminate :: "candump \<Rightarrow> pyframe option \<times> candump" where
  "terminate st = (None, st\<lparr>running := 0\<rparr>)"

text \<open>
  The method table \<^verbatim>\<open>FputsMethods\<close>: the name Python sees, the C function the
  entry points to, and the entry's documentation string.
\<close>

datatype cfunction = C_call_loop | C_get_frame_from_buffer | C_terminate

definition FputsMethods :: "(string \<times> cfunction \<times> string) list" where
  "FputsMethods =
     [(''loop'', C_call_loop, ''Python interface for candump C library function''),
      (''recv'', C_get_frame_from_buffer, ''Extracts last message from buffer''),
      (''terminate'', C_get_frame_from_buffer, ''Stops the reception loop'')]"

text \<open>
  A call of a module method by name from Python: the interpreter looks the name up
  in the table and runs the function of the entry. \<^verbatim>\<open>call_loop\<close> runs the whole
  capture loop and is not run here.
\<close>

datatype 'a call = NoSuchMethod | RunsCaptureLoop | Returned 'a

definition call_method :: "string \<Rightarrow> candump \<Rightarrow> (pyframe option \<times> candump) call" where
  "call_method name st =
     (case map_of FputsMethods name of
        None \<Rightarrow> NoSuchMethod
      | Some (C_call_loop, _) \<Rightarrow> RunsCaptureLoop
      | Some (C_get_frame_from_buffer, _) \<Rightarrow> Returned (get_frame_from_buffer st)
      | Some (C_terminate, _) \<Rightarrow> Returned (terminate st))"

text \<open>
  Runs in which no push and no pop overlap in time, within one call of \<^verbatim>\<open>loop\<close>:
  each operation, a push of a received frame with its timestamp or a pop, is
  done before the next begins. \<open>run\<close> performs the operations in order and
  collects the frames the pops return. The statements of a push and of a pop
  taken one by one come further down.
\<close>

datatype op = Push canfd_frame timeval | Pop

fun run :: "candump \<Rightarrow> op list \<Rightarrow> error + (candump \<times> pyframe list)" where
  "run st [] = Inr (st, [])"
| "run st (Push frame tv # ops) =
     (case register_frame st frame tv of
        Inl e \<Rightarrow> Inl e
      | Inr st' \<Rightarrow> run st' ops)"
| "run st (Pop # ops) =
     (case get_frame_from_buffer st of
        (r, st') \<Rightarrow>
          (case run st' ops of
             Inl e \<Rightarrow> Inl e
           | Inr (st'', out) \<Rightarrow>
               Inr (st'', (case r of None \<Rightarrow> out | Some fr \<Rightarrow> fr # out))))"

text \<open>
  What a pushed frame looks like to the consumer: the tuple a pop builds from a
  slot that holds it.
\<close>

definition pushed_view :: "canfd_frame \<Rightarrow> timeval \<Rightarrow> pyframe" where
  "pushed_view frame tv =
     (can_id frame AND CAN_EXTENDED_ID_MASK, fd_len frame,
      take (unat (fd_len frame)) (fd_data frame),
      timestamp_of tv)"

fun pushed :: "op list \<Rightarrow> pyframe list" where
  "pushed [] = []"
| "pushed (Push frame tv # ops) = pushed_view frame tv # pushed ops"
| "pushed (Pop # ops) = pushed ops"

text \<open>
  A push the kernel can deliver to a classic-CAN consumer: at most 8 payload
  bytes, in the 64-byte data field of \<^verbatim>\<open>struct canfd_frame\<close>.
\<close>

fun classic_op :: "op \<Rightarrow> bool" where
  "classic_op (Push frame tv) = (unat (fd_len frame) \<le> 8 \<and> length (fd_data frame) = 64)"
| "classic_op Pop = True"

text \<open>
  Bookkeeping for the proofs: the number of slots between the read cursor and the
  write cursor, and the invariant that ties a buffer to the list \<open>vs\<close> of all
  frames pushed so far.
\<close>

definition unread :: "candump \<Rightarrow> nat" where
  "unread st = (buffer_ptr st + 256 - read_ptr st) mod 256"

definition ring_inv :: "candump \<Rightarrow> pyframe list \<Rightarrow> bool" where
  "ring_inv st vs \<longleftrightarrow>
     length (frame_buffer st) = 256 \<and> read_ptr st < 256
     \<and> buffer_ptr st = length vs mod 256
     \<and> unread st \<le> length vs
     \<and> (\<forall>i < length vs. length vs - i \<le> 256 \<longrightarrow>
          (let slot = frame_buffer st ! (i mod 256)
           in (arbitration_id slot, len slot, take (unat (len slot)) (data slot),
               timestamp slot)) = vs ! i)"

definition next_index :: "candump \<Rightarrow> pyframe list \<Rightarrow> nat" where
  "next_index st vs = length vs - unread st"

text \<open>
  Shorthands for stating results: a run of pushes, the frames a run returned, and
  a family of sample frames (extended-frame flag set, two payload bytes).
\<close>

definition pushes :: "(canfd_frame \<times> timeval) list \<Rightarrow> op list" where
  "pushes fs = map (case_prod Push) fs"

definition popped :: "error + (candump \<times> pyframe list) \<Rightarrow> error + pyframe list" where
  "popped r = map_sum id snd r"

definition example_frame :: "nat \<Rightarrow> canfd_frame" where
  "example_frame i =
     \<lparr>can_id = of_nat i OR CAN_EFF_FLAG, fd_len = 2, fd_flags = 0,
      fd_data = [0x11, 0x22] @ replicate 62 0\<rparr>"

definition example_tv :: timeval where
  "example_tv = \<lparr>tv_sec = 0, tv_usec = 0\<rparr>"

definition example_push :: "nat \<Rightarrow> canfd_frame \<times> timeval" where
  "example_push i = (example_frame i, example_tv)"

section \<open>The producer and the consumer, statement by statement\<close>

text \<open>
  \<^verbatim>\<open>loop\<close> runs with the interpreter lock released (\<^verbatim>\<open>Py_BEGIN_ALLOW_THREADS\<close>), so
  a pop called from another Python thread runs while the loop pushes, and the two
  share \<^verbatim>\<open>frame_buffer\<close> and the cursors with no lock. Here each thread performs
  its statements in program order, a schedule says whose statement comes next,
  and a statement takes effect at once for both threads.

  The producer is \<^verbatim>\<open>loop\<close>: it has a list of actions before it, \<^verbatim>\<open>init_buffer\<close> at
  the start of each call of \<^verbatim>\<open>loop\<close> and a push for each received frame; \<open>ppc\<close>
  counts the statements of the current push that are done. A push is the five
  statements of lines 737, 738, 741, 743 and 744. \<^verbatim>\<open>init_buffer\<close> is called at line
  405, before the lock is released at line 410: it runs all at once and only
  while no pop is under way, so with a pop between its statements (\<open>cpc \<noteq> 0\<close>)
  the producer's step waits. The store of line 704 needs \<^verbatim>\<open>SO_TIMESTAMPING\<close>, which
  \<^verbatim>\<open>loop\<close> never enables (\<^verbatim>\<open>hwtimestamp\<close> is 0), and is left out.

  The consumer is \<^verbatim>\<open>get_frame_from_buffer\<close>, called \<open>pops_left\<close> more times: the
  test of line 859 (\<open>cpc = 0\<close>), the read of the slot at line 865 (\<open>cpc = 1\<close>, the
  four fields in one step), and the move of the read cursor at line 866 with the
  return (\<open>cpc = 2\<close>); \<open>held\<close> is the tuple built at line 865 and \<open>returned\<close>
  lists what the calls have returned.
\<close>

datatype action = PushA canfd_frame timeval | InitA

record conc =
  shared :: candump
  program :: "action list"
  ppc :: nat
  pops_left :: nat
  cpc :: nat
  held :: "pyframe option"
  returned :: "pyframe option list"

definition store_slot :: "(canframe \<Rightarrow> canframe) \<Rightarrow> nat \<Rightarrow> candump \<Rightarrow> candump" where
  "store_slot upd i st = st\<lparr>frame_buffer := (frame_buffer st)[i := upd (frame_buffer st ! i)]\<rparr>"

definition slot_view :: "canframe \<Rightarrow> pyframe" where
  "slot_view slot =
     (arbitration_id slot, len slot, take (unat (len slot)) (data slot), timestamp slot)"

definition producer_step :: "conc \<Rightarrow> error + conc" where
  "producer_step s =
     (case program s of
        [] \<Rightarrow> Inr s
      | PushA frame tv # rest \<Rightarrow>
          (let st = shared s; b = buffer_ptr st; n = unat (fd_len frame)
           in if ppc s = 0 then
                Inr (s\<lparr>shared :=
                         store_slot
                           (\<lambda>x. x\<lparr>arbitration_id := can_id frame AND CAN_EXTENDED_ID_MASK\<rparr>)
                           b st,
                       ppc := 1\<rparr>)
              else if ppc s = 1 then
                Inr (s\<lparr>shared := store_slot (\<lambda>x. x\<lparr>len := fd_len frame\<rparr>) b st, ppc := 2\<rparr>)
              else if ppc s = 2 then
                (if 8 < n then Inl Undefined
                 else Inr (s\<lparr>shared :=
                              store_slot
                                (\<lambda>x. x\<lparr>data := take n (fd_data frame) @ drop n (data x)\<rparr>)
                                b st,
                            ppc := 3\<rparr>))
              else if ppc s = 3 then
                Inr (s\<lparr>shared := store_slot (\<lambda>x. x\<lparr>timestamp := timestamp_of tv\<rparr>) b st,
                       ppc := 4\<rparr>)
              else
                Inr (s\<lparr>shared := st\<lparr>buffer_ptr := (b + 1) mod FRAME_BUFFER_SIZE\<rparr>,
                       ppc := 0, program := rest\<rparr>))
      | InitA # rest \<Rightarrow>
          (if cpc s = 0 then Inr (s\<lparr>shared := init_buffer (shared s), program := rest\<rparr>)
           else Inr s))"

definition consumer_step :: "conc \<Rightarrow> error + conc" where
  "consumer_step s =
     (let st = shared s
      in if pops_left s = 0 then Inr s
         else if cpc s = 0 then
           (if read_ptr st = buffer_ptr st
            then Inr (s\<lparr>returned := returned s @ [None], pops_left := pops_left s - 1\<rparr>)
            else Inr (s\<lparr>cpc := 1\<rparr>))
         else if cpc s = 1 then
           Inr (s\<lparr>held := Some (slot_view (frame_buffer st ! read_ptr st)), cpc := 2\<rparr>)
         else
           Inr (s\<lparr>shared := st\<lparr>read_ptr := (read_ptr st + 1) mod FRAME_BUFFER_SIZE\<rparr>,
                  returned := returned s @ [held s], cpc := 0,
                  pops_left := pops_left s - 1\<rparr>))"

datatype thread = Producer | Consumer

fun step :: "thread \<Rightarrow> conc \<Rightarrow> error + conc" where
  "step Producer s = producer_step s"
| "step Consumer s = consumer_step s"

fun exec :: "thread list \<Rightarrow> conc \<Rightarrow> error + conc" where
  "exec [] s = Inr s"
| "exec (t # ts) s = (case step t s of Inl e \<Rightarrow> Inl e | Inr s' \<Rightarrow> exec ts s')"

definition initial :: "action list \<Rightarrow> nat \<Rightarrow> conc" where
  "initial prog n =
     \<lparr>shared = start_state, program = prog, ppc = 0, pops_left = n, cpc = 0,
      held = None, returned = []\<rparr>"

text \<open>
  For stating results: the frames among the values returned, the actions the
  producer has completed, the frames they pushed as a pop would show them, and
  the producer's actions that push a classic frame.
\<close>

fun somes :: "'a option list \<Rightarrow> 'a list" where
  "somes [] = []"
| "somes (None # xs) = somes xs"
| "somes (Some x # xs) = x # somes xs"

definition completed :: "action list \<Rightarrow> conc \<Rightarrow> action list" where
  "completed prog s = take (length prog - length (program s)) prog"

fun action_views :: "action list \<Rightarrow> pyframe list" where
  "action_views [] = []"
| "action_views (PushA frame tv # as) = pushed_view frame tv # action_views as"
| "action_views (InitA # as) = action_views as"

fun classic_action :: "action \<Rightarrow> bool" where
  "classic_action (PushA frame tv) = (unat (fd_len frame) \<le> 8 \<and> length (fd_data frame) = 64)"
| "classic_action InitA = True"

fun classic_push :: "action \<Rightarrow> bool" where
  "classic_push (PushA frame tv) = (unat (fd_len frame) \<le> 8 \<and> length (fd_data frame) = 64)"
| "classic_push InitA = False"

text \<open>
  The condition under which no pop sees a slot that is being written: whenever
  the consumer performs the read of line 865, no push has begun and not finished
  writing the slot under the read cursor (a push writes the slot under the write
  cursor, from its first statement until it moves the cursor). \<open>untorn sched s\<close>
  checks it at every read of the schedule, from \<open>s\<close> on.
\<close>

definition reads_slot :: "thread \<Rightarrow> conc \<Rightarrow> bool" where
  "reads_slot t s \<longleftrightarrow> t = Consumer \<and> pops_left s \<noteq> 0 \<and> cpc s = 1"

definition being_written :: "conc \<Rightarrow> bool" where
  "being_written s \<longleftrightarrow> read_ptr (shared s) = buffer_ptr (shared s) \<and> 0 < ppc s"

fun untorn :: "thread list \<Rightarrow> conc \<Rightarrow> bool" where
  "untorn [] s = True"
| "untorn (t # ts) s =
     ((reads_slot t s \<longrightarrow> \<not> being_written s)
      \<and> (case step t s of Inl e \<Rightarrow> True | Inr s' \<Rightarrow> untorn ts s'))"

text \<open>
  Where the fields of a slot can come from, whatever the schedule: each is zero
  (a slot never written, or cleared by \<^verbatim>\<open>init_buffer\<close>) or was stored by a push of
  the producer's program \<open>prog\<close>.
\<close>

definition id_from :: "action list \<Rightarrow> 32 word \<Rightarrow> bool" where
  "id_from prog i \<longleftrightarrow>
     i = 0 \<or> (\<exists>f tv. PushA f tv \<in> set prog \<and> i = can_id f AND CAN_EXTENDED_ID_MASK)"

definition len_from :: "action list \<Rightarrow> 8 word \<Rightarrow> bool" where
  "len_from prog l \<longleftrightarrow> l = 0 \<or> (\<exists>f tv. PushA f tv \<in> set prog \<and> l = fd_len f)"

definition ts_from :: "action list \<Rightarrow> rat \<Rightarrow> bool" where
  "ts_from prog t \<longleftrightarrow> t = 0 \<or> (\<exists>f tv. PushA f tv \<in> set prog \<and> t = timestamp_of tv)"

definition byte_from :: "action list \<Rightarrow> nat \<Rightarrow> 8 word \<Rightarrow> bool" where
  "byte_from prog k b \<longleftrightarrow>
     b = 0 \<or> (\<exists>f tv. PushA f tv \<in> set prog \<and> k < unat (fd_len f) \<and> b = fd_data f ! k)"

definition slot_ok :: "action list \<Rightarrow> canframe \<Rightarrow> bool" where
  "slot_ok prog x \<longleftrightarrow>
     id_from prog (arbitration_id x) \<and> len_from prog (len x) \<and> ts_from prog (timestamp x)
     \<and> length (data x) = 8 \<and> (\<forall>k < 8. byte_from prog k (data x ! k))"

definition frame_ok :: "action list \<Rightarrow> pyframe \<Rightarrow> bool" where
  "frame_ok prog v \<longleftrightarrow>
     (case v of (i, l, d, t) \<Rightarrow>
        id_from prog i \<and> len_from prog l \<and> ts_from prog t
        \<and> length d = unat l \<and> (\<forall>k < length d. byte_from prog k (d ! k)))"

definition fields_inv :: "action list \<Rightarrow> conc \<Rightarrow> bool" where
  "fields_inv prog s \<longleftrightarrow>
     length (frame_buffer (shared s)) = 256 \<and> read_ptr (shared s) < 256
     \<and> (\<forall>x \<in> set (frame_buffer (shared s)). slot_ok prog x)
     \<and> (\<forall>v. held s = Some v \<longrightarrow> frame_ok prog v)
     \<and> (\<forall>v. Some v \<in> set (returned s) \<longrightarrow> frame_ok prog v)
     \<and> set (program s) \<subseteq> set prog"

text \<open>
  The invariant behind the ordering result, for a producer that only pushes
  classic frames; \<open>vs\<close> lists the frames of the completed pushes. The slots hold
  the last 256 of them (the last 255 while a push is writing the slot under the
  write cursor); the slot under the write cursor holds the fields of the current
  push stored so far; and the frames returned so far were pushed, in this order,
  before the frame the read cursor stands on. \<open>behind\<close> is the distance from the
  read cursor round to the write cursor when a frame is under the read cursor.
\<close>

definition behind :: "candump \<Rightarrow> nat" where
  "behind st = (if unread st = 0 then 256 else unread st)"

definition slots_inv :: "pyframe list \<Rightarrow> conc \<Rightarrow> bool" where
  "slots_inv vs s \<longleftrightarrow>
     (\<forall>i < length vs.
        length vs - i \<le> 256 \<and> (0 < ppc s \<longrightarrow> length vs - i < 256)
        \<longrightarrow> slot_view (frame_buffer (shared s) ! (i mod 256)) = vs ! i)"

definition progress_inv :: "conc \<Rightarrow> bool" where
  "progress_inv s \<longleftrightarrow>
     (case program s of
        PushA f tv # rest \<Rightarrow>
          (let x = frame_buffer (shared s) ! buffer_ptr (shared s)
           in (1 \<le> ppc s \<longrightarrow> arbitration_id x = can_id f AND CAN_EXTENDED_ID_MASK)
              \<and> (2 \<le> ppc s \<longrightarrow> len x = fd_len f)
              \<and> (3 \<le> ppc s \<longrightarrow>
                    take (unat (fd_len f)) (data x) = take (unat (fd_len f)) (fd_data f))
              \<and> (4 \<le> ppc s \<longrightarrow> timestamp x = timestamp_of tv))
      | _ \<Rightarrow> True)"

definition consumer_inv :: "pyframe list \<Rightarrow> conc \<Rightarrow> bool" where
  "consumer_inv vs s \<longleftrightarrow>
     cpc s \<le> 2
     \<and> (cpc s = 0 \<longrightarrow>
           unread (shared s) \<le> length vs
           \<and> subseq (somes (returned s)) (take (length vs - unread (shared s)) vs))
     \<and> (cpc s = 1 \<longrightarrow>
           behind (shared s) \<le> length vs
           \<and> subseq (somes (returned s)) (take (length vs - behind (shared s)) vs))
     \<and> (cpc s = 2 \<longrightarrow>
           (\<exists>idx. held s = Some (vs ! idx)
              \<and> idx + behind (shared s) \<le> length vs
              \<and> subseq (somes (returned s)) (take idx vs)))"

definition order_inv :: "action list \<Rightarrow> conc \<Rightarrow> bool" where
  "order_inv c s \<longleftrightarrow>
     length (frame_buffer (shared s)) = 256 \<and> read_ptr (shared s) < 256
     \<and> buffer_ptr (shared s) = length c mod 256
     \<and> (\<forall>a \<in> set c. classic_push a) \<and> (\<forall>a \<in> set (program s). classic_push a)
     \<and> ppc s \<le> 4 \<and> (0 < ppc s \<longrightarrow> program s \<noteq> [])
     \<and> slots_inv (action_views c) s \<and> progress_inv s \<and> consumer_inv (action_views c) s"

text \<open>
  Before the first \<^verbatim>\<open>init_buffer\<close> of a run from the start state nothing has been
  pushed: the buffer is as at the start and every pop so far has found it empty.
\<close>

definition init_phase :: "action list \<Rightarrow> conc \<Rightarrow> bool" where
  "init_phase acts s \<longleftrightarrow>
     shared s = start_state \<and> program s = InitA # acts \<and> ppc s = 0 \<and> cpc s = 0
     \<and> somes (returned s) = []"

text \<open>
  A sample run: \<^verbatim>\<open>loop\<close> clears the buffer, a pop finds it empty, one frame with
  the extended-frame flag set, received at 1700000000 s and 123456 \<mu>s, is pushed,
  and a second pop returns it.
\<close>

definition example_stamp :: timeval where
  "example_stamp = \<lparr>tv_sec = 1700000000, tv_usec = 123456\<rparr>"

definition example_program :: "action list" where
  "example_program = [InitA, PushA (example_frame 291) example_stamp]"

definition example_schedule :: "thread list" where
  "example_schedule =
     [Producer, Consumer, Producer, Producer, Producer, Producer, Producer,
      Consumer, Consumer, Consumer]"

text \<open>
  A run in which a pop is overtaken: 257 frames, each with its number in the
  identifier and again in the first two payload bytes. The producer clears the
  buffer and pushes 255 frames; the pop passes its test (read cursor 0, write
  cursor 255); the producer pushes frame 255, which brings the write cursor
  round to slot 0, and stores the identifier of frame 256 there (line 737); then
  the pop reads slot 0 and returns.
\<close>

definition seq_frame :: "nat \<Rightarrow> canfd_frame" where
  "seq_frame i =
     \<lparr>can_id = of_nat i, fd_len = 2, fd_flags = 0,
      fd_data = [of_nat (i div 256), of_nat (i mod 256)] @ replicate 62 0\<rparr>"

definition tear_program :: "action list" where
  "tear_program = InitA # map (\<lambda>i. PushA (seq_frame i) example_tv) [0..<257]"

definition tear_schedule :: "thread list" where
  "tear_schedule =
     Producer # replicate 1275 Producer @ [Consumer] @ replicate 6 Producer
       @ [Consumer, Consumer]"

text \<open>
  A second call of \<^verbatim>\<open>loop\<close>: one frame is pushed, \<^verbatim>\<open>loop\<close> is called again and
  clears the buffer, and then the frame is popped.
\<close>

definition restart_program :: "action list" where
  "restart_program = [InitA, PushA (example_frame 291) example_tv, InitA]"

definition restart_schedule :: "thread list" where
  "restart_schedule =
     [Producer, Producer, Producer, Producer, Producer, Producer, Producer,
      Consumer, Consumer, Consumer]"

section \<open>Byte-order reversal\<close>

text \<open>
  \<^verbatim>\<open>reverse_endian(src, dst, len)\<close> works on two pointers into the same memory, so
  the model is a store from addresses to bytes with \<open>src\<close> and \<open>dst\<close> as addresses:
  whether the two buffers overlap is then visible. Every address is taken as
  valid. The loop counter and the length (\<open>cnt\<close> below, \<^verbatim>\<open>len\<close> in the source, a name
  the slot record has taken) are C \<^verbatim>\<open>int\<close>s.
\<close>

type_synonym memory = "nat \<Rightarrow> 8 word"

function rev_loop :: "memory \<Rightarrow> nat \<Rightarrow> nat \<Rightarrow> int \<Rightarrow> int \<Rightarrow> memory" where
  "rev_loop m src dst cnt i =
     (if i < cnt
      then rev_loop (m(dst + nat i := m (src + nat (cnt - i - 1)))) src dst cnt (i + 1)
      else m)"
  by pat_completeness auto
termination
  by (relation "measure (\<lambda>(m, src, dst, cnt, i). nat (cnt - i))") auto

declare rev_loop.simps [simp del]

definition reverse_endian :: "memory \<Rightarrow> nat \<Rightarrow> nat \<Rightarrow> int \<Rightarrow> memory" where
  "reverse_endian m src dst cnt = rev_loop m src dst cnt 0"

text \<open>
  Two buffers of \<open>cnt\<close> bytes that do not overlap, and a sample memory with the
  bytes 1, 2 at addresses 0 and 1.
\<close>

definition disjoint_bufs :: "nat \<Rightarrow> nat \<Rightarrow> int \<Rightarrow> bool" where
  "disjoint_bufs a b cnt \<longleftrightarrow> a + nat cnt \<le> b \<or> b + nat cnt \<le> a"

definition alias_mem :: memory where
  "alias_mem = (\<lambda>a. 0)(0 := 1, 1 := 2)"

section \<open>The interface index cache\<close>

text \<open>
  The statics \<^verbatim>\<open>dindex\<close>, \<^verbatim>\<open>devname\<close> and \<^verbatim>\<open>max_devname_len\<close>. A slot whose
  \<^verbatim>\<open>dindex\<close> is 0 is free.
\<close>

record ifcache =
  dindex :: "int list"
  devname :: "string list"
  max_devname_len :: int

text \<open>
  The three loops of \<^verbatim>\<open>idx2dindex\<close>, each over \<open>i = 0, \<dots>, MAXIFNAMES - 1\<close>: the
  search for a hit, the sweep that frees the slots whose index the kernel no
  longer knows, and the search for the first free slot (which leaves the loop
  with \<open>i = MAXIFNAMES\<close> when there is none). The system call
  \<^verbatim>\<open>ioctl(socket, SIOCGIFNAME, &ifr)\<close> is the parameter \<open>ifname\<close>: \<open>None\<close> where the
  call fails, the name it writes to \<^verbatim>\<open>ifr.ifr_name\<close> where it succeeds. The sweep
  carries \<^verbatim>\<open>ifr.ifr_name\<close> along, since a failed call leaves it as it was.
\<close>

function scan_hit :: "int list \<Rightarrow> int \<Rightarrow> nat \<Rightarrow> nat option" where
  "scan_hit d ifidx i =
     (if i < MAXIFNAMES
      then (if d ! i = ifidx then Some i else scan_hit d ifidx (i + 1))
      else None)"
  by pat_completeness auto
termination
  by (relation "measure (\<lambda>(d, ifidx, i). MAXIFNAMES - i)") auto

function sweep ::
  "(int \<Rightarrow> string option) \<Rightarrow> int list \<Rightarrow> string \<Rightarrow> nat \<Rightarrow> int list \<times> string" where
  "sweep ifname d ifr_name i =
     (if i < MAXIFNAMES
      then (if d ! i \<noteq> 0
            then (case ifname (d ! i) of
                    None \<Rightarrow> sweep ifname (d[i := 0]) ifr_name (i + 1)
                  | Some n \<Rightarrow> sweep ifname d n (i + 1))
            else sweep ifname d ifr_name (i + 1))
      else (d, ifr_name))"
  by pat_completeness auto
termination
  by (relation "measure (\<lambda>(ifname, d, ifr_name, i). MAXIFNAMES - i)") auto

function first_free :: "int list \<Rightarrow> nat \<Rightarrow> nat" where
  "first_free d i =
     (if i < MAXIFNAMES then (if d ! i = 0 then i else first_free d (i + 1)) else i)"
  by pat_completeness auto
termination
  by (relation "measure (\<lambda>(d, i). MAXIFNAMES - i)") auto

declare scan_hit.simps [simp del] sweep.simps [simp del] first_free.simps [simp del]

text \<open>
  The diagnostic of the full cache, as \<^verbatim>\<open>fprintf\<close> formats it, and the function.
  \<open>junk\<close> is what the uninitialised \<^verbatim>\<open>ifr.ifr_name\<close> holds on entry; it reaches
  \<^verbatim>\<open>devname\<close> only when no \<^verbatim>\<open>ioctl\<close> of the call succeeds.
\<close>

definition cache_full_message :: string where
  "cache_full_message = ''Interface index cache only supports 30 interfaces.'' @ [CHR 0x0A]"

definition idx2dindex ::
  "(int \<Rightarrow> string option) \<Rightarrow> string \<Rightarrow> ifcache \<Rightarrow> int \<Rightarrow> error + (nat \<times> ifcache)" where
  "idx2dindex ifname junk c ifidx =
     (case scan_hit (dindex c) ifidx 0 of
        Some i \<Rightarrow> Inr (i, c)
      | None \<Rightarrow>
          (case sweep ifname (dindex c) junk 0 of
             (d, ifr_name) \<Rightarrow>
               (let i = first_free d 0
                in if i = MAXIFNAMES then Inl (Exit1 cache_full_message)
                   else
                     (let name = (case ifname ifidx of Some n \<Rightarrow> n | None \<Rightarrow> ifr_name)
                      in Inr (i, \<lparr>dindex = d[i := ifidx],
                                  devname = (devname c)[i := name],
                                  max_devname_len =
                                    (if max_devname_len c < int (length name)
                                     then int (length name) else max_devname_len c)\<rparr>)))))"

text \<open>
  The sweep as the specification words it: every occupied slot whose index no
  longer resolves to a name becomes free, the others stay. Below, the sweep loop
  is shown to compute this.
\<close>

definition invalidate :: "(int \<Rightarrow> string option) \<Rightarrow> int list \<Rightarrow> int list" where
  "invalidate ifname d = map (\<lambda>x. if x \<noteq> 0 \<and> ifname x = None then 0 else x) d"

text \<open>
  A sample cache: slots 0 and 1 hold the indices 3 and 4, the rest are free; the
  kernel still knows index 4 and the new index 5, and no longer index 3.
\<close>

definition example_cache :: ifcache where
  "example_cache =
     \<lparr>dindex = [3, 4] @ replicate 28 0, devname = [''can0'', ''can1''] @ replicate 28 [],
      max_devname_len = 4\<rparr>"

definition example_ifname :: "int \<Rightarrow> string option" where
  "example_ifname x = (if x = 4 then Some ''can1'' else if x = 5 then Some ''vcan0'' else None)"

text \<open>A full cache, all of whose indices the kernel still knows.\<close>

definition full_cache :: ifcache where
  "full_cache =
     \<lparr>dindex = [1, 2, 3, 4, 5, 6, 7, 8, 9, 10, 11, 12, 13, 14, 15, 16, 17, 18, 19, 20,
                21, 22, 23, 24, 25, 26, 27, 28, 29, 30],
      devname = replicate 30 ''can'', max_devname_len = 3\<rparr>"

definition full_ifname :: "int \<Rightarrow> string option" where
  "full_ifname x = Some ''can''"

section \<open>The drop counter\<close>







section \<open>The filter compiler\<close>

text \<open>
  The filter loop of \<^verbatim>\<open>loop\<close> (lines 480 to 505) reads each token with \<^verbatim>\<open>sscanf\<close>.
  \<^verbatim>\<open>sscanf\<close> is the C library's; what follows is the behaviour ISO C gives the
  conversion \<^verbatim>\<open>%x\<close>: white space is skipped, then comes an optional sign, an
  optional \<^verbatim>\<open>0x\<close> or \<^verbatim>\<open>0X\<close>, and one or more hexadecimal digits, as many as there
  are; the value goes into an \<^verbatim>\<open>unsigned int\<close>, negated modulo \<open>2 ^ 32\<close> after a
  minus sign. A prefix \<^verbatim>\<open>0x\<close> with no digit after it is a matching failure. A
  value of \<open>2 ^ 32\<close> or more does not fit the object, and the standard leaves the
  behaviour undefined: that is \<open>Overflow\<close>.
\<close>

definition isspace :: "char \<Rightarrow> bool" where
  "isspace c \<longleftrightarrow> c \<in> set [CHR 0x20, CHR 0x09, CHR 0x0A, CHR 0x0B, CHR 0x0C, CHR 0x0D]"

definition xdigit :: "char \<Rightarrow> nat option" where
  "xdigit c =
     (let k = (of_char c :: nat)
      in if 48 \<le> k \<and> k \<le> 57 then Some (k - 48)
         else if 97 \<le> k \<and> k \<le> 102 then Some (k - 87)
         else if 65 \<le> k \<and> k \<le> 70 then Some (k - 55)
         else None)"

definition isxdigit :: "char \<Rightarrow> bool" where
  "isxdigit c \<longleftrightarrow> xdigit c \<noteq> None"

fun hexval :: "nat \<Rightarrow> string \<Rightarrow> nat" where
  "hexval acc [] = acc"
| "hexval acc (c # cs) =
     (case xdigit c of None \<Rightarrow> acc | Some v \<Rightarrow> hexval (16 * acc + v) cs)"

datatype scan = Fail | Overflow | Scanned "32 word" string

definition scan_x :: "string \<Rightarrow> scan" where
  "scan_x s =
     (let s1 = dropWhile isspace s;
          neg = (case s1 of [] \<Rightarrow> False | c # r \<Rightarrow> c = CHR ''-'');
          s2 = (case s1 of [] \<Rightarrow> []
                | c # r \<Rightarrow> if c = CHR ''-'' \<or> c = CHR ''+'' then r else s1);
          s3 = (case s2 of
                  a # b # r \<Rightarrow>
                    if a = CHR ''0'' \<and> (b = CHR ''x'' \<or> b = CHR ''X'') then r else s2
                | _ \<Rightarrow> s2);
          digits = takeWhile isxdigit s3;
          rest = dropWhile isxdigit s3;
          v = hexval 0 digits
      in if digits = [] then Fail
         else if 2 ^ 32 \<le> v then Overflow
         else Scanned (if neg then - of_nat v else of_nat v) rest)"

text \<open>
  \<^verbatim>\<open>sscanf(ptr, "%x:%x", &id, &mask)\<close> and its twin with \<^verbatim>\<open>~\<close>: the code only asks
  whether the result is 2, so the model gives the two values when it is and
  \<open>Fewer\<close> when it is not. The separator of the format matches exactly one input
  character. \<^verbatim>\<open>sscanf(ptr, "#%x", &err_mask)\<close> is \<open>sscanf_hash_x\<close>.
\<close>

datatype scan2 = Two "32 word" "32 word" | Fewer | Undef

definition sscanf_x_sep_x :: "char \<Rightarrow> string \<Rightarrow> scan2" where
  "sscanf_x_sep_x sep s =
     (case scan_x s of
        Fail \<Rightarrow> Fewer
      | Overflow \<Rightarrow> Undef
      | Scanned a r \<Rightarrow>
          (case r of
             [] \<Rightarrow> Fewer
           | c # r' \<Rightarrow>
               if c \<noteq> sep then Fewer
               else (case scan_x r' of
                       Fail \<Rightarrow> Fewer
                     | Overflow \<Rightarrow> Undef
                     | Scanned b _ \<Rightarrow> Two a b)))"

definition sscanf_hash_x :: "string \<Rightarrow> scan" where
  "sscanf_hash_x s =
     (case s of [] \<Rightarrow> Fail | c # r \<Rightarrow> if c = CHR ''#'' then scan_x r else Fail)"

text \<open>
  A token is a C string: its characters, the terminating zero byte, and then
  whatever the memory holds. \<^verbatim>\<open>*(ptr + 8)\<close> reads the byte at offset 8 whatever the
  length of the token, so the bytes after the terminator are a parameter of the
  model, \<open>after\<close>, counted from the byte that follows the terminator.
\<close>

definition byte_at :: "string \<Rightarrow> (nat \<Rightarrow> char) \<Rightarrow> nat \<Rightarrow> char" where
  "byte_at s after i =
     (if i < length s then s ! i
      else if i = length s then CHR 0x00
      else after (i - length s - 1))"

text \<open>
  \<^verbatim>\<open>struct can_filter\<close> (its fields \<^verbatim>\<open>can_id\<close> and \<^verbatim>\<open>can_mask\<close>, prefixed here since
  the received frame has a \<^verbatim>\<open>can_id\<close> too), and what the loop builds: the first
  \<^verbatim>\<open>numfilter\<close> entries of \<^verbatim>\<open>rfilter\<close>, \<^verbatim>\<open>join_filter\<close> and \<^verbatim>\<open>err_mask\<close>.
\<close>

record can_filter =
  filter_can_id :: "32 word"
  filter_can_mask :: "32 word"

record filter_set =
  rfilter :: "can_filter list"
  join_filter :: bool
  err_mask :: "32 word"

definition empty_filter_set :: filter_set where
  "empty_filter_set = \<lparr>rfilter = [], join_filter = False, err_mask = 0\<rparr>"

text \<open>One turn of the filter loop, on the token \<open>ptr\<close>.\<close>

definition parse_filter :: "(nat \<Rightarrow> char) \<Rightarrow> filter_set \<Rightarrow> string \<Rightarrow> error + filter_set" where
  "parse_filter after fs ptr =
     (case sscanf_x_sep_x (CHR '':'') ptr of
        Undef \<Rightarrow> Inl Undefined
      | Two cid cmask \<Rightarrow>
          Inr (fs\<lparr>rfilter := rfilter fs @
                 [\<lparr>filter_can_id =
                      (if byte_at ptr after 8 = CHR '':'' then cid OR CAN_EFF_FLAG else cid),
                    filter_can_mask = cmask AND NOT CAN_ERR_FLAG\<rparr>]\<rparr>)
      | Fewer \<Rightarrow>
          (case sscanf_x_sep_x (CHR ''~'') ptr of
             Undef \<Rightarrow> Inl Undefined
           | Two cid cmask \<Rightarrow>
               Inr (fs\<lparr>rfilter := rfilter fs @
                      [\<lparr>filter_can_id =
                           (if byte_at ptr after 8 = CHR ''~''
                            then (cid OR CAN_INV_FILTER) OR CAN_EFF_FLAG
                            else cid OR CAN_INV_FILTER),
                         filter_can_mask = cmask AND NOT CAN_ERR_FLAG\<rparr>]\<rparr>)
           | Fewer \<Rightarrow>
               if byte_at ptr after 0 = CHR ''j'' \<or> byte_at ptr after 0 = CHR ''J''
               then Inr (fs\<lparr>join_filter := True\<rparr>)
               else (case sscanf_hash_x ptr of
                       Scanned m _ \<Rightarrow> Inr (fs\<lparr>err_mask := m\<rparr>)
                     | Overflow \<Rightarrow> Inl Undefined
                     | Fail \<Rightarrow> Inl SystemError)))"

text \<open>
  For stating results: an identifier or mask written as one to eight bare
  hexadecimal digits, and a memory that holds zero bytes after the token.
\<close>

definition hex_token :: "string \<Rightarrow> bool" where
  "hex_token ds \<longleftrightarrow> ds \<noteq> [] \<and> length ds \<le> 8 \<and> (\<forall>c \<in> set ds. isxdigit c)"

definition zeros_after :: "nat \<Rightarrow> char" where
  "zeros_after i = CHR 0x00"

section \<open>Results\<close>

subsection \<open>The ring buffer: invariant and runs\<close>

lemma timestamp_of_example: "timestamp_of example_tv = 0"
  by (simp add: timestamp_of_def to_double_def example_tv_def)

lemma timestamp_of_rounded: "timestamp_of example_stamp = 1782579200129453 / 1048576"
  by code_simp

lemma init_buffer_start: "init_buffer start_state = start_state"
  by (simp add: init_buffer_def start_state_def zero_frame_def)

lemma ring_inv_start: "ring_inv start_state []"
  by (simp add: ring_inv_def start_state_def unread_def FRAME_BUFFER_SIZE_def)

lemma push_inv:
  assumes inv: "ring_inv st vs" and wf: "classic_op (Push f tv)"
  shows "\<exists>st'. register_frame st f tv = Inr st' \<and> ring_inv st' (vs @ [pushed_view f tv])
     \<and> read_ptr st' = read_ptr st \<and> unread st' = (unread st + 1) mod 256"
proof -
  let ?P = "length vs"
  from inv have L: "length (frame_buffer st) = 256" and rp: "read_ptr st < 256"
    and bp: "buffer_ptr st = ?P mod 256" and u: "unread st \<le> ?P"
    and slots: "\<And>i. i < ?P \<Longrightarrow> ?P - i \<le> 256 \<Longrightarrow>
        (let slot = frame_buffer st ! (i mod 256)
           in (arbitration_id slot, len slot, take (unat (len slot)) (data slot),
               timestamp slot)) = vs ! i"
    by (auto simp: ring_inv_def)
  from wf have n8: "unat (fd_len f) \<le> 8" and l64: "length (fd_data f) = 64" by auto
  define slot where "slot = frame_buffer st ! buffer_ptr st"
  define st' where "st' = st\<lparr>frame_buffer := (frame_buffer st)[buffer_ptr st :=
                        slot\<lparr>arbitration_id := can_id f AND CAN_EXTENDED_ID_MASK,
                             len := fd_len f,
                             data := take (unat (fd_len f)) (fd_data f) @ drop (unat (fd_len f)) (data slot),
                             timestamp := timestamp_of tv\<rparr>],
                      buffer_ptr := (buffer_ptr st + 1) mod FRAME_BUFFER_SIZE\<rparr>"
  have reg: "register_frame st f tv = Inr st'"
    using n8 by (simp add: register_frame_def Let_def st'_def slot_def)
  have rp': "read_ptr st' = read_ptr st" by (simp add: st'_def)
  have bp': "buffer_ptr st' = (?P + 1) mod 256"
    by (simp add: st'_def bp FRAME_BUFFER_SIZE_def mod_simps)
  have u': "unread st' = (unread st + 1) mod 256"
  proof -
    have "unread st' = ((?P + 1) mod 256 + (256 - read_ptr st)) mod 256"
      using rp by (simp add: unread_def rp' bp')
    also have "\<dots> = ((?P mod 256 + (256 - read_ptr st)) mod 256 + 1) mod 256"
      by (simp add: mod_simps ac_simps)
    also have "\<dots> = (unread st + 1) mod 256"
      using rp by (simp add: unread_def bp)
    finally show ?thesis .
  qed
  have u'le: "unread st' \<le> ?P + 1"
  proof -
    have "(unread st + 1) mod 256 \<le> unread st + 1" by (rule mod_less_eq_dividend)
    with u u' show ?thesis by simp
  qed
  have slots': "(let slot = frame_buffer st' ! (i mod 256)
           in (arbitration_id slot, len slot, take (unat (len slot)) (data slot),
               timestamp slot)) = (vs @ [pushed_view f tv]) ! i"
    if i: "i < ?P + 1" and d: "?P + 1 - i \<le> 256" for i
  proof (cases "i = ?P")
    case True
    then show ?thesis
      using L l64 n8 by (simp add: st'_def bp pushed_view_def Let_def)
  next
    case False
    with i have lt: "i < ?P" by simp
    have ne: "i mod 256 \<noteq> ?P mod 256"
    proof
      assume "i mod 256 = ?P mod 256"
      then have "256 dvd ?P - i" using lt mod_eq_dvd_iff_nat[of i "?P" 256] by simp
      moreover have "0 < ?P - i" "?P - i < 256" using lt d by simp_all
      ultimately show False by (meson dvd_imp_le not_less)
    qed
    have "frame_buffer st' ! (i mod 256) = frame_buffer st ! (i mod 256)"
      using ne by (simp add: st'_def bp)
    moreover have "?P - i \<le> 256" using d by simp
    ultimately show ?thesis using slots[OF lt] lt by (simp add: nth_append)
  qed
  have "ring_inv st' (vs @ [pushed_view f tv])"
    unfolding ring_inv_def using L rp rp' bp' u'le slots'
    by (simp add: st'_def)
  with reg rp' u' show ?thesis by blast
qed


lemma unread_cases:
  assumes rp: "read_ptr st < 256" and bp: "buffer_ptr st < 256"
  shows "unread st = (if read_ptr st \<le> buffer_ptr st then buffer_ptr st - read_ptr st
                else buffer_ptr st + 256 - read_ptr st)"
proof (cases "read_ptr st \<le> buffer_ptr st")
  case True
  have h: "buffer_ptr st + 256 - read_ptr st = (buffer_ptr st - read_ptr st) + 256"
    using True by simp
  have "unread st = ((buffer_ptr st - read_ptr st) + 256) mod 256"
    unfolding unread_def h ..
  also have "\<dots> = (buffer_ptr st - read_ptr st) mod 256" by (rule mod_add_self2)
  also have "\<dots> = buffer_ptr st - read_ptr st"
    by (rule mod_less) (use bp in linarith)
  finally show ?thesis using True by simp
next
  case False
  have "buffer_ptr st + 256 - read_ptr st < 256" using False rp by linarith
  then have "unread st = buffer_ptr st + 256 - read_ptr st"
    unfolding unread_def by (rule mod_less)
  then show ?thesis using False by simp
qed

lemma pop_empty:
  assumes inv: "ring_inv st vs" and z: "unread st = 0"
  shows "get_frame_from_buffer st = (None, st)"
proof -
  from inv have rp: "read_ptr st < 256" and bp: "buffer_ptr st < 256"
    by (auto simp: ring_inv_def)
  from z unread_cases[OF rp bp] have "read_ptr st = buffer_ptr st"
    using rp bp by (auto split: if_splits)
  then show ?thesis by (simp add: get_frame_from_buffer_def)
qed

lemma pop_inv:
  assumes inv: "ring_inv st vs" and nz: "unread st \<noteq> 0"
  shows "\<exists>st'. get_frame_from_buffer st = (Some (vs ! (length vs - unread st)), st')
     \<and> ring_inv st' vs \<and> unread st' = unread st - 1"
proof -
  let ?P = "length vs"
  from inv have L: "length (frame_buffer st) = 256" and rp: "read_ptr st < 256"
    and bpe: "buffer_ptr st = ?P mod 256" and u: "unread st \<le> ?P"
    and slots: "\<And>i. i < ?P \<Longrightarrow> ?P - i \<le> 256 \<Longrightarrow>
        (let slot = frame_buffer st ! (i mod 256)
           in (arbitration_id slot, len slot, take (unat (len slot)) (data slot),
               timestamp slot)) = vs ! i"
    by (auto simp: ring_inv_def)
  have bp: "buffer_ptr st < 256" by (simp add: bpe)
  note uc = unread_cases[OF rp bp]
  have ne: "read_ptr st \<noteq> buffer_ptr st" using nz uc by auto
  have ult: "unread st < 256" by (simp add: unread_def)
  define st' where "st' = st\<lparr>read_ptr := (read_ptr st + 1) mod FRAME_BUFFER_SIZE\<rparr>"
  let ?i = "?P - unread st"
  obtain q0 where Pq: "?P = 256 * q0 + buffer_ptr st"
    using bpe by (metis mult_div_mod_eq)
  have imod: "?i mod 256 = read_ptr st"
  proof (cases "read_ptr st \<le> buffer_ptr st")
    case True
    then have "?i = 256 * q0 + read_ptr st" using uc Pq by simp
    then have "?i mod 256 = read_ptr st mod 256" by (metis mod_mult_self4)
    then show ?thesis using rp by simp
  next
    case False
    then have ue: "unread st = buffer_ptr st + 256 - read_ptr st" using uc by simp
    have "1 \<le> q0" using u ue Pq rp False by simp
    then obtain q where q: "q0 = Suc q" by (cases q0) auto
    have "?i = 256 * q + read_ptr st" using ue Pq q rp False by simp
    then have "?i mod 256 = read_ptr st mod 256" by (metis mod_mult_self4)
    then show ?thesis using rp by simp
  qed
  have ilt: "?i < ?P" using nz u by simp
  have "?P - ?i \<le> 256" using ult u by simp
  from slots[OF ilt this] imod
  have get: "get_frame_from_buffer st = (Some (vs ! ?i), st')"
    using ne by (simp add: get_frame_from_buffer_def Let_def st'_def)
  have rp': "read_ptr st' < 256" by (simp add: st'_def FRAME_BUFFER_SIZE_def)
  have bp': "buffer_ptr st' < 256" using bp by (simp add: st'_def)
  have rpe: "read_ptr st' = (if read_ptr st = 255 then 0 else read_ptr st + 1)"
    using rp by (simp add: st'_def FRAME_BUFFER_SIZE_def)
  have bpe': "buffer_ptr st' = buffer_ptr st" by (simp add: st'_def)
  have u': "unread st' = unread st - 1"
    using unread_cases[OF rp' bp'] uc rpe bpe' ne rp bp by (auto split: if_splits)
  have "ring_inv st' vs"
    unfolding ring_inv_def using L rp' bpe u u' slots
    by (simp add: st'_def)
  with get u' show ?thesis by blast
qed

lemma run_append:
  "run st (a @ b) =
     (case run st a of
        Inl e \<Rightarrow> Inl e
      | Inr (st1, o1) \<Rightarrow>
          (case run st1 b of Inl e \<Rightarrow> Inl e | Inr (st2, o2) \<Rightarrow> Inr (st2, o1 @ o2)))"
proof (induction a arbitrary: st)
  case Nil
  show ?case by (cases "run st b") auto
next
  case (Cons x a)
  show ?case
  proof (cases x)
    case (Push frame tv)
    show ?thesis
    proof (cases "register_frame st frame tv")
      case (Inl e)
      then show ?thesis using Push by simp
    next
      case (Inr st')
      then show ?thesis using Push Cons.IH[of st'] by simp
    qed
  next
    case Pop
    obtain r st' where g: "get_frame_from_buffer st = (r, st')"
      by (cases "get_frame_from_buffer st")
    show ?thesis
    proof (cases "run st' a")
      case (Inl e)
      then show ?thesis using Pop g Cons.IH[of st'] by simp
    next
      case (Inr p)
      obtain st1 o1 where p: "p = (st1, o1)" by (cases p)
      show ?thesis
      proof (cases "run st1 b")
        case (Inl e)
        then show ?thesis using Pop g Inr p Cons.IH[of st'] by simp
      next
        case (Inr p2)
        obtain st2 o2 where p2: "p2 = (st2, o2)" by (cases p2)
        show ?thesis using Pop g \<open>run st' a = Inr p\<close> p Inr p2 Cons.IH[of st']
          by (cases r) simp_all
      qed
    qed
  qed
qed

lemma pushed_pushes: "pushed (pushes fs) = map (case_prod pushed_view) fs"
  by (induction fs) (auto simp: pushes_def)

lemma run_pushes:
  assumes "ring_inv st vs" and "\<forall>x \<in> set fs. classic_op (case_prod Push x)"
  shows "\<exists>st'. run st (pushes fs) = Inr (st', []) \<and> ring_inv st' (vs @ pushed (pushes fs))
     \<and> read_ptr st' = read_ptr st"
  using assms
proof (induction fs arbitrary: st vs)
  case Nil
  then show ?case by (simp add: pushes_def)
next
  case (Cons x fs)
  obtain f tv where x: "x = (f, tv)" by (cases x)
  with Cons.prems have wf: "classic_op (Push f tv)" by simp
  from push_inv[OF Cons.prems(1) wf] obtain st1 where
    reg: "register_frame st f tv = Inr st1"
    and inv1: "ring_inv st1 (vs @ [pushed_view f tv])"
    and rp1: "read_ptr st1 = read_ptr st" by blast
  from Cons.prems have "\<forall>x \<in> set fs. classic_op (case_prod Push x)" by simp
  from Cons.IH[OF inv1 this] obtain st' where
    r: "run st1 (pushes fs) = Inr (st', [])"
    and inv': "ring_inv st' ((vs @ [pushed_view f tv]) @ pushed (pushes fs))"
    and rp': "read_ptr st' = read_ptr st1" by blast
  have "run st (pushes (x # fs)) = Inr (st', [])" using reg r x by (simp add: pushes_def)
  moreover have "(vs @ [pushed_view f tv]) @ pushed (pushes fs) = vs @ pushed (pushes (x # fs))"
    using x by (simp add: pushes_def)
  ultimately show ?case using inv' rp' rp1 by metis
qed

lemma run_pops:
  assumes "ring_inv st vs"
  shows "\<exists>st'. run st (replicate k Pop) = Inr (st', take k (drop (next_index st vs) vs))"
  using assms
proof (induction k arbitrary: st)
  case 0
  then show ?case by simp
next
  case (Suc k)
  show ?case
  proof (cases "unread st = 0")
    case True
    from pop_empty[OF Suc.prems True] have g: "get_frame_from_buffer st = (None, st)" .
    from Suc.IH[OF Suc.prems] obtain st' where
      r: "run st (replicate k Pop) = Inr (st', take k (drop (next_index st vs) vs))" by blast
    have e: "drop (next_index st vs) vs = []" using True by (simp add: next_index_def)
    show ?thesis using g r unfolding e by simp
  next
    case False
    from pop_inv[OF Suc.prems False] obtain st1 where
      g: "get_frame_from_buffer st = (Some (vs ! next_index st vs), st1)"
      and inv1: "ring_inv st1 vs" and u1: "unread st1 = unread st - 1"
      by (auto simp: next_index_def)
    from Suc.prems have ule: "unread st \<le> length vs" by (simp add: ring_inv_def)
    have n1: "next_index st1 vs = Suc (next_index st vs)"
      using u1 False ule by (simp add: next_index_def)
    have nlt: "next_index st vs < length vs" using False ule by (simp add: next_index_def)
    from Suc.IH[OF inv1] obtain st' where
      r: "run st1 (replicate k Pop) = Inr (st', take k (drop (Suc (next_index st vs)) vs))"
      unfolding n1 by blast
    have "take (Suc k) (drop (next_index st vs) vs)
        = vs ! next_index st vs # take k (drop (Suc (next_index st vs)) vs)"
      using Cons_nth_drop_Suc[OF nlt, symmetric] by simp
    then show ?thesis using g r by simp
  qed
qed

lemma pushes_then_pops:
  assumes wf: "\<forall>x \<in> set fs. classic_op (case_prod Push x)"
  shows "\<exists>st. run start_state (pushes fs @ replicate k Pop)
     = Inr (st, take k (drop (length fs - length fs mod 256) (map (case_prod pushed_view) fs)))"
proof -
  from run_pushes[OF ring_inv_start wf] obtain st1 where
    r1: "run start_state (pushes fs) = Inr (st1, [])"
    and inv1: "ring_inv st1 (pushed (pushes fs))"
    and rp1: "read_ptr st1 = 0" by (auto simp: start_state_def)
  let ?vs = "map (case_prod pushed_view) fs"
  have vs: "pushed (pushes fs) = ?vs" by (rule pushed_pushes)
  from inv1 have "buffer_ptr st1 = length fs mod 256" by (simp add: ring_inv_def vs)
  then have "unread st1 = length fs mod 256" using rp1 by (simp add: unread_def)
  then have ni: "next_index st1 ?vs = length fs - length fs mod 256"
    by (simp add: next_index_def)
  from run_pops[OF inv1, of k] obtain st2 where
    "run st1 (replicate k Pop) = Inr (st2, take k (drop (length fs - length fs mod 256) ?vs))"
    unfolding vs ni by blast
  then show ?thesis using r1 by (simp add: run_append)
qed

lemma drop_256_upt: "drop 256 (map g [0..<257]) = [g 256]"
proof -
  have "[0..<257] = [0..<256] @ [256::nat]"
    using upt_Suc_append[of 0 256] by simp
  then show ?thesis by simp
qed


subsection \<open>The statements interleaved: where the fields of a returned frame come from\<close>

lemma len_from_classic:
  assumes "\<forall>a \<in> set prog. classic_action a" and "len_from prog l"
  shows "unat l \<le> 8"
  using assms by (fastforce simp: len_from_def)

lemma slot_view_ok:
  assumes cl: "\<forall>a \<in> set prog. classic_action a" and ok: "slot_ok prog x"
  shows "frame_ok prog (slot_view x)"
proof -
  from ok have l: "len_from prog (len x)" and d8: "length (data x) = 8"
    and bts: "\<And>k. k < 8 \<Longrightarrow> byte_from prog k (data x ! k)"
    by (auto simp: slot_ok_def)
  have n8: "unat (len x) \<le> 8" by (rule len_from_classic[OF cl l])
  have "length (take (unat (len x)) (data x)) = unat (len x)" using n8 d8 by simp
  moreover have "byte_from prog k (take (unat (len x)) (data x) ! k)"
    if "k < length (take (unat (len x)) (data x))" for k
  proof -
    from that have "k < unat (len x)" "k < 8" using n8 d8 by simp_all
    then show ?thesis using bts[of k] by simp
  qed
  ultimately show ?thesis using ok by (simp add: frame_ok_def slot_view_def slot_ok_def)
qed

lemma store_slot_ok:
  assumes all: "\<forall>x \<in> set (frame_buffer st). slot_ok prog x"
    and upd: "\<And>x. slot_ok prog x \<Longrightarrow> slot_ok prog (upd x)"
  shows "\<forall>x \<in> set (frame_buffer (store_slot upd i st)). slot_ok prog x"
proof (cases "i < length (frame_buffer st)")
  case True
  then have "frame_buffer st ! i \<in> set (frame_buffer st)" by simp
  with all upd have "slot_ok prog (upd (frame_buffer st ! i))" by blast
  moreover have "set ((frame_buffer st)[i := upd (frame_buffer st ! i)])
      \<subseteq> insert (upd (frame_buffer st ! i)) (set (frame_buffer st))"
    by (rule set_update_subset_insert)
  ultimately show ?thesis using all by (auto simp: store_slot_def)
next
  case False
  then have "(frame_buffer st)[i := upd (frame_buffer st ! i)] = frame_buffer st"
    by (simp add: list_update_beyond)
  then show ?thesis using all by (simp add: store_slot_def)
qed

lemma store_slot_shape:
  "length (frame_buffer (store_slot upd i st)) = length (frame_buffer st)"
  "read_ptr (store_slot upd i st) = read_ptr st"
  "buffer_ptr (store_slot upd i st) = buffer_ptr st"
  by (simp_all add: store_slot_def)

lemma field_updates_ok:
  assumes ok: "slot_ok prog x"
  shows "id_from prog i \<Longrightarrow> slot_ok prog (x\<lparr>arbitration_id := i\<rparr>)"
    and "len_from prog l \<Longrightarrow> slot_ok prog (x\<lparr>len := l\<rparr>)"
    and "ts_from prog t \<Longrightarrow> slot_ok prog (x\<lparr>timestamp := t\<rparr>)"
    and "slot_ok prog (x\<lparr>data := replicate 8 0\<rparr>)"
  using ok by (simp_all add: slot_ok_def byte_from_def)

lemma zero_from: "id_from prog 0" "len_from prog 0" "ts_from prog 0"
  by (simp_all add: id_from_def len_from_def ts_from_def)

lemma memcpy_ok:
  assumes ok: "slot_ok prog x" and mem: "PushA f tv \<in> set prog"
    and n8: "unat (fd_len f) \<le> 8" and l64: "length (fd_data f) = 64"
  shows "slot_ok prog
           (x\<lparr>data := take (unat (fd_len f)) (fd_data f) @ drop (unat (fd_len f)) (data x)\<rparr>)"
proof -
  let ?n = "unat (fd_len f)"
  let ?d = "take ?n (fd_data f) @ drop ?n (data x)"
  from ok have d8: "length (data x) = 8"
    and bts: "\<And>k. k < 8 \<Longrightarrow> byte_from prog k (data x ! k)"
    by (auto simp: slot_ok_def)
  have len: "length ?d = 8" using n8 l64 d8 by simp
  have "byte_from prog k (?d ! k)" if k: "k < 8" for k
  proof (cases "k < ?n")
    case True
    then have "?d ! k = fd_data f ! k" using l64 n8 by (simp add: nth_append)
    then show ?thesis using mem True by (auto simp: byte_from_def)
  next
    case False
    then have "?d ! k = data x ! k" using l64 n8 d8 k by (simp add: nth_append)
    then show ?thesis using bts[OF k] by simp
  qed
  then show ?thesis using ok len by (simp add: slot_ok_def)
qed

lemma fields_inv_initial: "fields_inv prog (initial prog n)"
  by (simp add: fields_inv_def initial_def start_state_def FRAME_BUFFER_SIZE_def slot_ok_def
      zero_frame_def zero_from byte_from_def)

lemma producer_step_fields:
  assumes cl: "\<forall>a \<in> set prog. classic_action a"
    and inv: "fields_inv prog s" and st: "producer_step s = Inr s'"
  shows "fields_inv prog s'"
proof -
  from inv have L: "length (frame_buffer (shared s)) = 256" and rp: "read_ptr (shared s) < 256"
    and slots: "\<forall>x \<in> set (frame_buffer (shared s)). slot_ok prog x"
    and h: "\<forall>v. held s = Some v \<longrightarrow> frame_ok prog v"
    and r: "\<forall>v. Some v \<in> set (returned s) \<longrightarrow> frame_ok prog v"
    and sub: "set (program s) \<subseteq> set prog"
    by (auto simp: fields_inv_def)
  have keep: "fields_inv prog (s\<lparr>shared := store_slot upd i (shared s), ppc := j\<rparr>)"
    if "\<And>x. slot_ok prog x \<Longrightarrow> slot_ok prog (upd x)" for upd i j
    using store_slot_ok[OF slots that, where i = i] L rp h r sub
    by (simp add: fields_inv_def store_slot_shape)
  have keep': "fields_inv prog (s\<lparr>shared := store_slot upd i (shared s), ppc := j,
                                   program := rest\<rparr>)"
    if "\<And>x. slot_ok prog x \<Longrightarrow> slot_ok prog (upd x)" and "set rest \<subseteq> set prog"
    for upd i j rest
    using store_slot_ok[OF slots that(1), where i = i] L rp h r that(2)
    by (simp add: fields_inv_def store_slot_shape)
  show ?thesis
  proof (cases "program s")
    case Nil
    then show ?thesis using st inv by (simp add: producer_step_def)
  next
    case (Cons a rest)
    have rest: "set rest \<subseteq> set prog" using sub Cons by auto
    show ?thesis
    proof (cases a)
      case (PushA f tv)
      have mem: "PushA f tv \<in> set prog" using sub Cons PushA by auto
      with cl have n8: "unat (fd_len f) \<le> 8" and l64: "length (fd_data f) = 64" by auto
      have idf: "id_from prog (can_id f AND CAN_EXTENDED_ID_MASK)"
        using mem by (auto simp: id_from_def)
      have lf: "len_from prog (fd_len f)" using mem by (auto simp: len_from_def)
      have tf: "ts_from prog (timestamp_of tv)" using mem by (auto simp: ts_from_def)
      consider "ppc s = 0" | "ppc s = 1" | "ppc s = 2" | "ppc s = 3" | "4 \<le> ppc s"
        by linarith
      then show ?thesis
      proof cases
        case 1
        then have "s' = s\<lparr>shared := store_slot
              (\<lambda>x. x\<lparr>arbitration_id := can_id f AND CAN_EXTENDED_ID_MASK\<rparr>)
              (buffer_ptr (shared s)) (shared s), ppc := 1\<rparr>"
          using st Cons PushA by (simp add: producer_step_def Let_def)
        then show ?thesis using keep field_updates_ok(1)[OF _ idf] by simp
      next
        case 2
        then have "s' = s\<lparr>shared := store_slot (\<lambda>x. x\<lparr>len := fd_len f\<rparr>)
              (buffer_ptr (shared s)) (shared s), ppc := 2\<rparr>"
          using st Cons PushA by (simp add: producer_step_def Let_def)
        then show ?thesis using keep field_updates_ok(2)[OF _ lf] by simp
      next
        case 3
        then have "s' = s\<lparr>shared := store_slot
              (\<lambda>x. x\<lparr>data := take (unat (fd_len f)) (fd_data f)
                                @ drop (unat (fd_len f)) (data x)\<rparr>)
              (buffer_ptr (shared s)) (shared s), ppc := 3\<rparr>"
          using st Cons PushA n8 by (simp add: producer_step_def Let_def)
        then show ?thesis using keep memcpy_ok[OF _ mem n8 l64] by simp
      next
        case 4
        then have "s' = s\<lparr>shared := store_slot (\<lambda>x. x\<lparr>timestamp := timestamp_of tv\<rparr>)
              (buffer_ptr (shared s)) (shared s), ppc := 4\<rparr>"
          using st Cons PushA by (simp add: producer_step_def Let_def)
        then show ?thesis using keep field_updates_ok(3)[OF _ tf] by simp
      next
        case 5
        then have "s' = s\<lparr>shared := (shared s)\<lparr>buffer_ptr :=
              (buffer_ptr (shared s) + 1) mod FRAME_BUFFER_SIZE\<rparr>, ppc := 0, program := rest\<rparr>"
          using st Cons PushA by (simp add: producer_step_def Let_def)
        then show ?thesis using L rp slots h r rest by (simp add: fields_inv_def)
      qed
    next
      case InitA
      have z: "slot_ok prog (x\<lparr>timestamp := 0, len := 0, arbitration_id := 0,
                               data := replicate 8 0\<rparr>)" for x :: canframe
        using zero_from[of prog] by (simp add: slot_ok_def byte_from_def)
      have "s' = s \<or> s' = s\<lparr>shared := init_buffer (shared s), program := rest\<rparr>"
        using st Cons InitA by (auto simp: producer_step_def split: if_splits)
      then show ?thesis
      proof
        assume "s' = s"
        then show ?thesis using inv by simp
      next
        assume "s' = s\<lparr>shared := init_buffer (shared s), program := rest\<rparr>"
        then show ?thesis using L rp h r rest z
          by (auto simp: fields_inv_def init_buffer_def)
      qed
    qed
  qed
qed

lemma consumer_step_fields:
  assumes cl: "\<forall>a \<in> set prog. classic_action a"
    and inv: "fields_inv prog s" and st: "consumer_step s = Inr s'"
  shows "fields_inv prog s'"
proof -
  from inv have L: "length (frame_buffer (shared s)) = 256" and rp: "read_ptr (shared s) < 256"
    and slots: "\<forall>x \<in> set (frame_buffer (shared s)). slot_ok prog x"
    and h: "\<forall>v. held s = Some v \<longrightarrow> frame_ok prog v"
    and r: "\<forall>v. Some v \<in> set (returned s) \<longrightarrow> frame_ok prog v"
    and sub: "set (program s) \<subseteq> set prog"
    by (auto simp: fields_inv_def)
  have "frame_buffer (shared s) ! read_ptr (shared s) \<in> set (frame_buffer (shared s))"
    using L rp by simp
  with slots have "slot_ok prog (frame_buffer (shared s) ! read_ptr (shared s))" by blast
  from slot_view_ok[OF cl this]
  have v: "frame_ok prog (slot_view (frame_buffer (shared s) ! read_ptr (shared s)))" .
  consider "pops_left s = 0" | "pops_left s \<noteq> 0" "cpc s = 0" | "pops_left s \<noteq> 0" "cpc s = 1"
    | "pops_left s \<noteq> 0" "cpc s \<noteq> 0" "cpc s \<noteq> 1"
    by blast
  then show ?thesis
  proof cases
    case 1
    then show ?thesis using st inv by (simp add: consumer_step_def)
  next
    case 2
    then have "s' = s\<lparr>returned := returned s @ [None], pops_left := pops_left s - 1\<rparr>
        \<or> s' = s\<lparr>cpc := 1\<rparr>"
      using st by (auto simp: consumer_step_def Let_def split: if_splits)
    then show ?thesis using L rp slots h r sub by (auto simp: fields_inv_def)
  next
    case 3
    then have "s' = s\<lparr>held := Some (slot_view (frame_buffer (shared s) ! read_ptr (shared s))),
                       cpc := 2\<rparr>"
      using st by (simp add: consumer_step_def Let_def)
    then show ?thesis using L rp slots v r sub by (simp add: fields_inv_def)
  next
    case 4
    then have "s' = s\<lparr>shared := (shared s)\<lparr>read_ptr :=
              (read_ptr (shared s) + 1) mod FRAME_BUFFER_SIZE\<rparr>,
            returned := returned s @ [held s], cpc := 0, pops_left := pops_left s - 1\<rparr>"
      using st by (simp add: consumer_step_def Let_def)
    then show ?thesis using L slots h r sub
      by (auto simp: fields_inv_def FRAME_BUFFER_SIZE_def)
  qed
qed

lemma producer_step_total:
  assumes cl: "\<forall>a \<in> set prog. classic_action a" and inv: "fields_inv prog s"
  shows "\<exists>s'. producer_step s = Inr s'"
proof (cases "program s")
  case Nil
  then show ?thesis by (simp add: producer_step_def)
next
  case (Cons a rest)
  from inv have "set (program s) \<subseteq> set prog" by (simp add: fields_inv_def)
  with cl Cons have "classic_action a" by auto
  then show ?thesis using Cons
    by (cases a) (auto simp: producer_step_def Let_def)
qed

lemma consumer_step_total: "\<exists>s'. consumer_step s = Inr s'"
  by (simp add: consumer_step_def Let_def)

lemma exec_fields:
  assumes cl: "\<forall>a \<in> set prog. classic_action a"
  shows "fields_inv prog s \<Longrightarrow> \<exists>s'. exec sched s = Inr s' \<and> fields_inv prog s'"
proof (induction sched arbitrary: s)
  case Nil
  then show ?case by simp
next
  case (Cons t ts)
  have "\<exists>s1. step t s = Inr s1"
    using producer_step_total[OF cl Cons.prems] consumer_step_total[of s] by (cases t) auto
  then obtain s1 where s1: "step t s = Inr s1" by blast
  have "fields_inv prog s1"
    using s1 producer_step_fields[OF cl Cons.prems] consumer_step_fields[OF cl Cons.prems]
    by (cases t) auto
  from Cons.IH[OF this] show ?case using s1 by simp
qed

subsection \<open>The statements interleaved: the order of the returned frames\<close>

lemma somes_append: "somes (xs @ ys) = somes xs @ somes ys"
  by (induction xs rule: somes.induct) auto

lemma action_views_append: "action_views (xs @ ys) = action_views xs @ action_views ys"
  by (induction xs rule: action_views.induct) auto

lemma action_views_length:
  "\<forall>a \<in> set c. classic_push a \<Longrightarrow> length (action_views c) = length c"
  by (induction c rule: action_views.induct) auto

lemma unread_zero_iff:
  "read_ptr st < 256 \<Longrightarrow> buffer_ptr st < 256 \<Longrightarrow> unread st = 0 \<longleftrightarrow> read_ptr st = buffer_ptr st"
  using unread_cases[of st] by (auto split: if_splits)

lemma unread_lt: "unread st < 256"
  by (simp add: unread_def)

lemma unread_store: "unread (store_slot upd i st) = unread st"
  by (simp add: unread_def store_slot_def)

lemma unread_push:
  assumes rp: "read_ptr st < 256" and bp: "buffer_ptr st < 256"
  shows "unread (st\<lparr>buffer_ptr := (buffer_ptr st + 1) mod FRAME_BUFFER_SIZE\<rparr>)
       = (if unread st = 255 then 0 else unread st + 1)"
proof -
  let ?st' = "st\<lparr>buffer_ptr := (buffer_ptr st + 1) mod FRAME_BUFFER_SIZE\<rparr>"
  have rp': "read_ptr ?st' < 256" using rp by simp
  have bp': "buffer_ptr ?st' < 256" by (simp add: FRAME_BUFFER_SIZE_def)
  have be: "buffer_ptr ?st' = (if buffer_ptr st = 255 then 0 else buffer_ptr st + 1)"
    using bp by (simp add: FRAME_BUFFER_SIZE_def)
  have re: "read_ptr ?st' = read_ptr st" by simp
  show ?thesis
    using unread_cases[OF rp' bp'] unread_cases[OF rp bp] be re rp bp
    by (auto split: if_splits)
qed

lemma unread_pop:
  assumes rp: "read_ptr st < 256" and bp: "buffer_ptr st < 256"
  shows "unread (st\<lparr>read_ptr := (read_ptr st + 1) mod FRAME_BUFFER_SIZE\<rparr>)
       = (if unread st = 0 then 255 else unread st - 1)"
proof -
  let ?st' = "st\<lparr>read_ptr := (read_ptr st + 1) mod FRAME_BUFFER_SIZE\<rparr>"
  have rp': "read_ptr ?st' < 256" by (simp add: FRAME_BUFFER_SIZE_def)
  have bp': "buffer_ptr ?st' < 256" using bp by simp
  have re: "read_ptr ?st' = (if read_ptr st = 255 then 0 else read_ptr st + 1)"
    using rp by (simp add: FRAME_BUFFER_SIZE_def)
  have be: "buffer_ptr ?st' = buffer_ptr st" by simp
  show ?thesis
    using unread_cases[OF rp' bp'] unread_cases[OF rp bp] be re rp bp
    by (auto split: if_splits)
qed

lemma read_index:
  assumes rp: "read_ptr st < 256" and bpe: "buffer_ptr st = P mod 256"
    and nz: "unread st \<noteq> 0" and u: "unread st \<le> P"
  shows "(P - unread st) mod 256 = read_ptr st"
proof -
  have bp: "buffer_ptr st < 256" by (simp add: bpe)
  note uc = unread_cases[OF rp bp]
  obtain q0 where Pq: "P = 256 * q0 + buffer_ptr st"
    using bpe by (metis mult_div_mod_eq)
  show ?thesis
  proof (cases "read_ptr st \<le> buffer_ptr st")
    case True
    then have "P - unread st = 256 * q0 + read_ptr st" using uc Pq by simp
    then have "(P - unread st) mod 256 = read_ptr st mod 256" by (metis mod_mult_self4)
    then show ?thesis using rp by simp
  next
    case False
    then have ue: "unread st = buffer_ptr st + 256 - read_ptr st" using uc by simp
    have "1 \<le> q0" using u ue Pq rp False by simp
    then obtain q where q: "q0 = Suc q" by (cases q0) auto
    have "P - unread st = 256 * q + read_ptr st" using ue Pq q rp False by simp
    then have "(P - unread st) mod 256 = read_ptr st mod 256" by (metis mod_mult_self4)
    then show ?thesis using rp by simp
  qed
qed

lemma other_slot:
  assumes "i < P" and "P - i < 256"
  shows "i mod 256 \<noteq> P mod (256::nat)"
proof
  assume "i mod 256 = P mod 256"
  then have "256 dvd P - i" using assms(1) mod_eq_dvd_iff_nat[of i P 256] by simp
  moreover have "0 < P - i" using assms(1) by simp
  ultimately show False using assms(2) by (meson dvd_imp_le not_less)
qed

lemma subseq_take_mono: "subseq xs (take m ys) \<Longrightarrow> m \<le> n \<Longrightarrow> subseq xs (take n (ys @ zs))"
proof -
  assume a: "subseq xs (take m ys)" and mn: "m \<le> n"
  have "prefix (take m ys) (take n (ys @ zs))"
    using mn by (metis prefix_def take_add take_append append.assoc append_take_drop_id
        le_Suc_ex take_take min.absorb1 prefixI)
  then have "subseq (take m ys) (take n (ys @ zs))" by (rule prefix_imp_subseq)
  with a show ?thesis by (rule subseq_order.order_trans)
qed

lemma order_invD:
  assumes "order_inv c s"
  shows "length (frame_buffer (shared s)) = 256" and "read_ptr (shared s) < 256"
    and "buffer_ptr (shared s) = length c mod 256"
    and "\<forall>a \<in> set c. classic_push a" and "\<forall>a \<in> set (program s). classic_push a"
    and "ppc s \<le> 4" and "0 < ppc s \<longrightarrow> program s \<noteq> []"
    and "slots_inv (action_views c) s" and "progress_inv s"
    and "consumer_inv (action_views c) s"
  using assms by (simp_all add: order_inv_def)

lemma store_keeps:
  assumes inv: "order_inv c s" and j: "0 < j" "j \<le> 4" and ne: "program s \<noteq> []"
    and pr: "progress_inv
               (s\<lparr>shared := store_slot upd (buffer_ptr (shared s)) (shared s), ppc := j\<rparr>)"
  shows "order_inv c (s\<lparr>shared := store_slot upd (buffer_ptr (shared s)) (shared s), ppc := j\<rparr>)"
proof -
  let ?vs = "action_views c"
  let ?s' = "s\<lparr>shared := store_slot upd (buffer_ptr (shared s)) (shared s), ppc := j\<rparr>"
  note d = order_invD[OF inv]
  have P: "length ?vs = length c" by (rule action_views_length[OF d(4)])
  have "slots_inv ?vs ?s'"
    unfolding slots_inv_def
  proof (intro allI impI)
    fix i
    assume i: "i < length ?vs"
      and "length ?vs - i \<le> 256 \<and> (0 < ppc ?s' \<longrightarrow> length ?vs - i < 256)"
    then have lt: "length ?vs - i < 256" using j by simp
    have "i mod 256 \<noteq> length ?vs mod 256" by (rule other_slot[OF i lt])
    then have neq: "buffer_ptr (shared s) \<noteq> i mod 256" using d(3) P by simp
    have "frame_buffer (shared ?s') ! (i mod 256) = frame_buffer (shared s) ! (i mod 256)"
      using neq by (simp add: store_slot_def)
    moreover have "slot_view (frame_buffer (shared s) ! (i mod 256)) = ?vs ! i"
      using d(8) i lt by (simp add: slots_inv_def)
    ultimately show "slot_view (frame_buffer (shared ?s') ! (i mod 256)) = ?vs ! i" by simp
  qed
  moreover have "consumer_inv ?vs ?s'"
  proof -
    have e: "unread (shared ?s') = unread (shared s)" by (simp add: unread_store)
    then have e': "behind (shared ?s') = behind (shared s)" by (simp add: behind_def)
    show ?thesis using d(10) unfolding consumer_inv_def e e' by simp
  qed
  ultimately show ?thesis using d(1-5) pr j ne by (simp add: order_inv_def store_slot_shape)
qed

lemma advance_keeps:
  assumes inv: "order_inv c s" and prog: "program s = PushA f tv # rest" and p4: "ppc s = 4"
  shows "order_inv (c @ [PushA f tv])
           (s\<lparr>shared := (shared s)\<lparr>buffer_ptr :=
                  (buffer_ptr (shared s) + 1) mod FRAME_BUFFER_SIZE\<rparr>,
               ppc := 0, program := rest\<rparr>)"
proof -
  let ?vs = "action_views c"
  let ?v = "pushed_view f tv"
  let ?st = "shared s"
  let ?s' = "s\<lparr>shared := (shared s)\<lparr>buffer_ptr :=
                  (buffer_ptr (shared s) + 1) mod FRAME_BUFFER_SIZE\<rparr>,
               ppc := 0, program := rest\<rparr>"
  note d = order_invD[OF inv]
  have P: "length ?vs = length c" by (rule action_views_length[OF d(4)])
  have vs': "action_views (c @ [PushA f tv]) = ?vs @ [?v]" by (simp add: action_views_append)
  have bp: "buffer_ptr ?st < 256" using d(3) by simp
  have cur: "slot_view (frame_buffer ?st ! buffer_ptr ?st) = ?v"
    using d(9) prog p4 by (simp add: progress_inv_def slot_view_def pushed_view_def Let_def)
  have sl: "slots_inv (?vs @ [?v]) ?s'"
    unfolding slots_inv_def
  proof (intro allI impI)
    fix i
    assume i: "i < length (?vs @ [?v])"
      and b: "length (?vs @ [?v]) - i \<le> 256
              \<and> (0 < ppc ?s' \<longrightarrow> length (?vs @ [?v]) - i < 256)"
    show "slot_view (frame_buffer (shared ?s') ! (i mod 256)) = (?vs @ [?v]) ! i"
    proof (cases "i = length ?vs")
      case True
      then show ?thesis using cur d(3) P by (simp add: nth_append)
    next
      case False
      then have lt: "i < length ?vs" using i by simp
      then have "length ?vs - i < 256" using b by simp
      then have "slot_view (frame_buffer ?st ! (i mod 256)) = ?vs ! i"
        using d(8) lt by (simp add: slots_inv_def)
      then show ?thesis using lt by (simp add: nth_append)
    qed
  qed
  define u0 where "u0 = unread ?st"
  define u1 where "u1 = unread (shared ?s')"
  define b0 where "b0 = behind ?st"
  define b1 where "b1 = behind (shared ?s')"
  define n where "n = length ?vs"
  have u': "u1 = (if u0 = 255 then 0 else u0 + 1)"
    unfolding u0_def u1_def using unread_push[OF d(2) bp] by simp
  have u255: "u0 \<le> 255" unfolding u0_def using unread_lt[of ?st] by simp
  have b0: "b0 = (if u0 = 0 then 256 else u0)" by (simp add: b0_def u0_def behind_def)
  have b1raw: "b1 = (if u1 = 0 then 256 else u1)"
    unfolding b1_def u1_def behind_def by (rule refl)
  have b1: "b1 = (if u0 = 0 then 1 else b0 + 1)"
    using b1raw u' u255 b0 by (auto split: if_splits)
  have n': "length (?vs @ [?v]) = Suc n" by (simp add: n_def)
  have c2: "cpc s \<le> 2" using d(10) by (simp add: consumer_inv_def)
  have low: "u1 \<le> length (?vs @ [?v])
      \<and> subseq (somes (returned ?s')) (take (length (?vs @ [?v]) - u1) (?vs @ [?v]))"
    if c1: "cpc s = 0"
  proof -
    from d(10) c1 have u: "u0 \<le> n"
      and sub: "subseq (somes (returned s)) (take (n - u0) ?vs)"
      unfolding u0_def n_def by (simp_all add: consumer_inv_def)
    have le: "n - u0 \<le> Suc n - u1" using u u' by (cases "u0 = 255") simp_all
    have "subseq (somes (returned s)) (take (Suc n - u1) (?vs @ [?v]))"
      by (rule subseq_take_mono[OF sub le])
    moreover have "u1 \<le> Suc n" using u u' by (cases "u0 = 255") simp_all
    ultimately show ?thesis unfolding n' by simp
  qed
  have mid: "b1 \<le> length (?vs @ [?v])
      \<and> subseq (somes (returned ?s')) (take (length (?vs @ [?v]) - b1) (?vs @ [?v]))"
    if c1: "cpc s = 1"
  proof -
    from d(10) c1 have u: "b0 \<le> n"
      and sub: "subseq (somes (returned s)) (take (n - b0) ?vs)"
      unfolding b0_def n_def by (simp_all add: consumer_inv_def)
    have le: "n - b0 \<le> Suc n - b1" using u b1 by (cases "u0 = 0") simp_all
    have "subseq (somes (returned s)) (take (Suc n - b1) (?vs @ [?v]))"
      by (rule subseq_take_mono[OF sub le])
    moreover have "b1 \<le> Suc n" using u b1 by (cases "u0 = 0") simp_all
    ultimately show ?thesis unfolding n' by simp
  qed
  have high: "\<exists>idx. held ?s' = Some ((?vs @ [?v]) ! idx)
      \<and> idx + b1 \<le> length (?vs @ [?v])
      \<and> subseq (somes (returned ?s')) (take idx (?vs @ [?v]))"
    if c1: "cpc s = 2"
  proof -
    from d(10) c1 obtain idx where h: "held s = Some (?vs ! idx)"
      and le: "idx + b0 \<le> n"
      and sub: "subseq (somes (returned s)) (take idx ?vs)"
      unfolding b0_def n_def by (auto simp: consumer_inv_def)
    have lt: "idx < n" using le b0 by (cases "u0 = 0") simp_all
    have a: "held ?s' = Some ((?vs @ [?v]) ! idx)" using h lt by (simp add: nth_append n_def)
    have b: "idx + b1 \<le> Suc n" using le b1 b0 by (cases "u0 = 0") simp_all
    have c: "subseq (somes (returned ?s')) (take idx (?vs @ [?v]))"
      using sub lt by (simp add: n_def)
    from a b c show ?thesis unfolding n' by blast
  qed
  have ci: "consumer_inv (?vs @ [?v]) ?s'"
    unfolding consumer_inv_def using c2 low mid high by (simp add: u1_def b1_def)
  have pi: "progress_inv ?s'"
    by (simp add: progress_inv_def split: list.splits action.splits)
  have bp': "buffer_ptr (shared ?s') = length (c @ [PushA f tv]) mod 256"
    using d(3) by (simp add: FRAME_BUFFER_SIZE_def mod_simps)
  have cl: "\<forall>a \<in> set (c @ [PushA f tv]). classic_push a" using d(4) d(5) prog by simp
  have cl': "\<forall>a \<in> set (program ?s'). classic_push a" using d(5) prog by simp
  show ?thesis
    unfolding order_inv_def vs' using d(1) d(2) bp' cl cl' sl pi ci by simp
qed

lemma producer_step_order:
  assumes inv: "order_inv c s"
  shows "\<exists>s' c'. producer_step s = Inr s' \<and> order_inv c' s' \<and> c' @ program s' = c @ program s"
proof (cases "program s")
  case Nil
  then have "producer_step s = Inr s" by (simp add: producer_step_def)
  with inv show ?thesis by blast
next
  case (Cons a rest)
  note d = order_invD[OF inv]
  from d(5) Cons obtain f tv where a: "a = PushA f tv"
    and n8: "unat (fd_len f) \<le> 8" and l64: "length (fd_data f) = 64"
    by (cases a) auto
  have prog: "program s = PushA f tv # rest" using Cons a by simp
  have ne: "program s \<noteq> []" using prog by simp
  have bl: "buffer_ptr (shared s) < length (frame_buffer (shared s))" using d(1) d(3) by simp
  let ?b = "buffer_ptr (shared s)"
  consider "ppc s = 0" | "ppc s = 1" | "ppc s = 2" | "ppc s = 3" | "ppc s = 4"
    using d(6) by linarith
  then show ?thesis
  proof cases
    case 1
    let ?s' = "s\<lparr>shared := store_slot
          (\<lambda>x. x\<lparr>arbitration_id := can_id f AND CAN_EXTENDED_ID_MASK\<rparr>) ?b (shared s),
        ppc := 1\<rparr>"
    have st: "producer_step s = Inr ?s'" using prog 1 by (simp add: producer_step_def Let_def)
    have pr: "progress_inv ?s'"
      using prog bl by (simp add: progress_inv_def store_slot_def Let_def)
    have "order_inv c ?s'" by (rule store_keeps[OF inv _ _ ne pr]) simp_all
    moreover have "c @ program ?s' = c @ program s" by simp
    ultimately show ?thesis using st by blast
  next
    case 2
    let ?s' = "s\<lparr>shared := store_slot (\<lambda>x. x\<lparr>len := fd_len f\<rparr>) ?b (shared s), ppc := 2\<rparr>"
    have st: "producer_step s = Inr ?s'" using prog 2 by (simp add: producer_step_def Let_def)
    have pr: "progress_inv ?s'"
      using d(9) prog 2 bl by (simp add: progress_inv_def store_slot_def Let_def)
    have "order_inv c ?s'" by (rule store_keeps[OF inv _ _ ne pr]) simp_all
    moreover have "c @ program ?s' = c @ program s" by simp
    ultimately show ?thesis using st by blast
  next
    case 3
    let ?s' = "s\<lparr>shared := store_slot
          (\<lambda>x. x\<lparr>data := take (unat (fd_len f)) (fd_data f)
                            @ drop (unat (fd_len f)) (data x)\<rparr>) ?b (shared s),
        ppc := 3\<rparr>"
    have st: "producer_step s = Inr ?s'"
      using prog 3 n8 by (simp add: producer_step_def Let_def)
    have pr: "progress_inv ?s'"
      using d(9) prog 3 bl n8 l64 by (simp add: progress_inv_def store_slot_def Let_def)
    have "order_inv c ?s'" by (rule store_keeps[OF inv _ _ ne pr]) simp_all
    moreover have "c @ program ?s' = c @ program s" by simp
    ultimately show ?thesis using st by blast
  next
    case 4
    let ?s' = "s\<lparr>shared := store_slot (\<lambda>x. x\<lparr>timestamp := timestamp_of tv\<rparr>) ?b (shared s),
        ppc := 4\<rparr>"
    have st: "producer_step s = Inr ?s'" using prog 4 by (simp add: producer_step_def Let_def)
    have pr: "progress_inv ?s'"
      using d(9) prog 4 bl by (simp add: progress_inv_def store_slot_def Let_def)
    have "order_inv c ?s'" by (rule store_keeps[OF inv _ _ ne pr]) simp_all
    moreover have "c @ program ?s' = c @ program s" by simp
    ultimately show ?thesis using st by blast
  next
    case 5
    let ?s' = "s\<lparr>shared := (shared s)\<lparr>buffer_ptr := (?b + 1) mod FRAME_BUFFER_SIZE\<rparr>,
        ppc := 0, program := rest\<rparr>"
    have st: "producer_step s = Inr ?s'" using prog 5 by (simp add: producer_step_def Let_def)
    have "order_inv (c @ [PushA f tv]) ?s'" by (rule advance_keeps[OF inv prog 5])
    moreover have "(c @ [PushA f tv]) @ program ?s' = c @ program s" using prog by simp
    ultimately show ?thesis using st by blast
  qed
qed

lemma consumer_step_order:
  assumes inv: "order_inv c s"
    and safe: "reads_slot Consumer s \<longrightarrow> \<not> being_written s"
  shows "\<exists>s'. consumer_step s = Inr s' \<and> order_inv c s' \<and> program s' = program s"
proof -
  note d = order_invD[OF inv]
  let ?vs = "action_views c"
  let ?st = "shared s"
  have P: "length ?vs = length c" by (rule action_views_length[OF d(4)])
  have bp: "buffer_ptr ?st < 256" using d(3) by simp
  have c2: "cpc s \<le> 2" using d(10) by (simp add: consumer_inv_def)
  have frame: "order_inv c s'"
    if "shared s' = shared s \<or> (\<exists>r < 256. shared s' = (shared s)\<lparr>read_ptr := r\<rparr>)"
      and "program s' = program s" and "ppc s' = ppc s" and "consumer_inv ?vs s'" for s'
  proof -
    from that(1) have fb: "frame_buffer (shared s') = frame_buffer ?st"
      and b: "buffer_ptr (shared s') = buffer_ptr ?st" and r: "read_ptr (shared s') < 256"
      using d(2) by auto
    have "slots_inv ?vs s'" using d(8) fb that(3) by (simp add: slots_inv_def)
    moreover have "progress_inv s'"
      using d(9) unfolding progress_inv_def fb b that(2) that(3) .
    ultimately show ?thesis using d(1,3-7) fb b r that(2-4) by (simp add: order_inv_def)
  qed
  consider (idle) "pops_left s = 0" | (test) "pops_left s \<noteq> 0" "cpc s = 0"
    | (read) "pops_left s \<noteq> 0" "cpc s = 1" | (adv) "pops_left s \<noteq> 0" "cpc s = 2"
    using c2 by linarith
  then show ?thesis
  proof cases
    case idle
    then have "consumer_step s = Inr s" by (simp add: consumer_step_def Let_def)
    with inv show ?thesis by blast
  next
    case test
    from d(10) test(2) have low: "unread ?st \<le> length ?vs"
      "subseq (somes (returned s)) (take (length ?vs - unread ?st) ?vs)"
      by (simp_all add: consumer_inv_def)
    show ?thesis
    proof (cases "read_ptr ?st = buffer_ptr ?st")
      case True
      let ?s' = "s\<lparr>returned := returned s @ [None], pops_left := pops_left s - 1\<rparr>"
      have st: "consumer_step s = Inr ?s'" using test True by (simp add: consumer_step_def Let_def)
      have "consumer_inv ?vs ?s'" using low test(2) by (simp add: consumer_inv_def somes_append)
      then have "order_inv c ?s'" by (intro frame) simp_all
      with st show ?thesis by auto
    next
      case False
      let ?s' = "s\<lparr>cpc := 1\<rparr>"
      have st: "consumer_step s = Inr ?s'" using test False by (simp add: consumer_step_def Let_def)
      have "unread ?st \<noteq> 0" using unread_zero_iff[OF d(2) bp] False by simp
      then have "behind ?st = unread ?st" by (simp add: behind_def)
      then have "consumer_inv ?vs ?s'" using low by (simp add: consumer_inv_def)
      then have "order_inv c ?s'" by (intro frame) simp_all
      with st show ?thesis by auto
    qed
  next
    case read
    from safe read have nw: "\<not> (read_ptr ?st = buffer_ptr ?st \<and> 0 < ppc s)"
      by (simp add: reads_slot_def being_written_def)
    from d(10) read(2) have u: "behind ?st \<le> length ?vs"
      and sub: "subseq (somes (returned s)) (take (length ?vs - behind ?st) ?vs)"
      by (simp_all add: consumer_inv_def)
    define idx where "idx = length ?vs - behind ?st"
    have be: "buffer_ptr ?st = length ?vs mod 256" using d(3) P by simp
    have ri: "idx mod 256 = read_ptr ?st"
    proof (cases "unread ?st = 0")
      case True
      then have "read_ptr ?st = buffer_ptr ?st" using unread_zero_iff[OF d(2) bp] by simp
      moreover have "256 \<le> length ?vs" using u True by (simp add: behind_def)
      then have "(length ?vs - 256) mod 256 = length ?vs mod 256"
        by (simp add: le_mod_geq)
      ultimately show ?thesis using True be by (simp add: idx_def behind_def)
    next
      case False
      then have "(length ?vs - unread ?st) mod 256 = read_ptr ?st"
        using u by (intro read_index[OF d(2) be]) (simp_all add: behind_def)
      then show ?thesis using False by (simp add: idx_def behind_def)
    qed
    have pos: "0 < behind ?st" by (simp add: behind_def)
    have lt: "idx < length ?vs" using pos u by (simp add: idx_def)
    have d256: "length ?vs - idx \<le> 256"
      using unread_lt[of ?st] u by (simp add: idx_def behind_def)
    have dlt: "length ?vs - idx < 256" if "0 < ppc s"
    proof -
      from nw that have "read_ptr ?st \<noteq> buffer_ptr ?st" by simp
      then have "unread ?st \<noteq> 0" using unread_zero_iff[OF d(2) bp] by simp
      then show ?thesis using unread_lt[of ?st] u by (simp add: idx_def behind_def)
    qed
    have "slot_view (frame_buffer ?st ! (idx mod 256)) = ?vs ! idx"
      using d(8) lt d256 dlt by (simp add: slots_inv_def)
    then have v: "slot_view (frame_buffer ?st ! read_ptr ?st) = ?vs ! idx" using ri by simp
    let ?s' = "s\<lparr>held := Some (slot_view (frame_buffer ?st ! read_ptr ?st)), cpc := 2\<rparr>"
    have st: "consumer_step s = Inr ?s'" using read by (simp add: consumer_step_def Let_def)
    have a: "held ?s' = Some (?vs ! idx)" using v by simp
    have b: "idx + behind (shared ?s') \<le> length ?vs" using u by (simp add: idx_def)
    have e: "subseq (somes (returned ?s')) (take idx ?vs)" using sub by (simp add: idx_def)
    from a b e have "\<exists>idx. held ?s' = Some (?vs ! idx)
        \<and> idx + behind (shared ?s') \<le> length ?vs
        \<and> subseq (somes (returned ?s')) (take idx ?vs)" by blast
    then have "consumer_inv ?vs ?s'" unfolding consumer_inv_def by simp
    then have "order_inv c ?s'" by (intro frame) simp_all
    with st show ?thesis by auto
  next
    case adv
    define u0 where "u0 = unread ?st"
    from d(10) adv(2) obtain idx where h: "held s = Some (?vs ! idx)"
      and le: "idx + (if u0 = 0 then 256 else u0) \<le> length ?vs"
      and sub: "subseq (somes (returned s)) (take idx ?vs)"
      unfolding u0_def by (auto simp: consumer_inv_def behind_def)
    let ?s' = "s\<lparr>shared := ?st\<lparr>read_ptr := (read_ptr ?st + 1) mod FRAME_BUFFER_SIZE\<rparr>,
        returned := returned s @ [held s], cpc := 0, pops_left := pops_left s - 1\<rparr>"
    have st: "consumer_step s = Inr ?s'" using adv by (simp add: consumer_step_def Let_def)
    define u1 where "u1 = unread (shared ?s')"
    have u': "u1 = (if u0 = 0 then 255 else u0 - 1)"
      unfolding u0_def u1_def using unread_pop[OF d(2) bp] by simp
    have lt: "idx < length ?vs" using le by (cases "u0 = 0") simp_all
    have t: "take (Suc idx) ?vs = take idx ?vs @ [?vs ! idx]"
      by (rule take_Suc_conv_app_nth[OF lt])
    have s1: "subseq (somes (returned s) @ [?vs ! idx]) (take (Suc idx) ?vs)"
      unfolding t by (rule list_emb_append_mono[OF sub]) simp
    have le': "Suc idx \<le> length ?vs - u1" using le u' by (cases "u0 = 0") simp_all
    have "subseq (somes (returned s) @ [?vs ! idx]) (take (length ?vs - u1) (?vs @ []))"
      by (rule subseq_take_mono[OF s1 le'])
    then have s2: "subseq (somes (returned ?s')) (take (length ?vs - u1) ?vs)"
      using h by (simp add: somes_append)
    have "u1 \<le> length ?vs" using le u' by (cases "u0 = 0") simp_all
    with s2 have "consumer_inv ?vs ?s'" unfolding consumer_inv_def u1_def by simp
    moreover have "\<exists>r < 256. shared ?s' = (shared s)\<lparr>read_ptr := r\<rparr>"
      by (rule exI[of _ "(read_ptr ?st + 1) mod FRAME_BUFFER_SIZE"])
         (simp add: FRAME_BUFFER_SIZE_def)
    ultimately have "order_inv c ?s'" by (intro frame) simp_all
    with st show ?thesis by auto
  qed
qed

lemma init_phase_producer:
  assumes ip: "init_phase acts s" and cl: "\<forall>a \<in> set acts. classic_push a"
  shows "\<exists>s'. producer_step s = Inr s' \<and> order_inv [] s' \<and> [] @ program s' = acts"
proof -
  let ?s' = "s\<lparr>shared := init_buffer (shared s), program := acts\<rparr>"
  from ip have sh: "shared s = start_state" and prog: "program s = InitA # acts"
    and p0: "ppc s = 0" and c0: "cpc s = 0" and r: "somes (returned s) = []"
    by (simp_all add: init_phase_def)
  have st: "producer_step s = Inr ?s'" using prog c0 by (simp add: producer_step_def)
  have sh': "shared ?s' = start_state" using sh by (simp add: init_buffer_start)
  have "slots_inv (action_views []) ?s'" by (simp add: slots_inv_def)
  moreover have "progress_inv ?s'"
    using p0 by (simp add: progress_inv_def Let_def split: list.splits action.splits)
  moreover have "consumer_inv (action_views []) ?s'"
    using c0 r sh' by (simp add: consumer_inv_def unread_def start_state_def)
  ultimately have "order_inv [] ?s'"
    using sh' p0 cl by (simp add: order_inv_def start_state_def FRAME_BUFFER_SIZE_def)
  with st show ?thesis by auto
qed

lemma init_phase_consumer:
  assumes ip: "init_phase acts s"
  shows "\<exists>s'. consumer_step s = Inr s' \<and> init_phase acts s'"
proof (cases "pops_left s = 0")
  case True
  then have "consumer_step s = Inr s" by (simp add: consumer_step_def Let_def)
  with ip show ?thesis by blast
next
  case False
  let ?s' = "s\<lparr>returned := returned s @ [None], pops_left := pops_left s - 1\<rparr>"
  from ip have sh: "shared s = start_state" and c0: "cpc s = 0"
    by (simp_all add: init_phase_def)
  have "consumer_step s = Inr ?s'"
    using False c0 sh by (simp add: consumer_step_def start_state_def)
  moreover have "init_phase acts ?s'" using ip by (simp add: init_phase_def somes_append)
  ultimately show ?thesis by blast
qed

lemma exec_order:
  assumes cl: "\<forall>a \<in> set acts. classic_push a"
  shows "untorn sched s
    \<Longrightarrow> init_phase acts s \<or> (\<exists>c. order_inv c s \<and> c @ program s = acts)
    \<Longrightarrow> \<exists>s'. exec sched s = Inr s'
          \<and> (init_phase acts s' \<or> (\<exists>c. order_inv c s' \<and> c @ program s' = acts))"
proof (induction sched arbitrary: s)
  case Nil
  then show ?case by simp
next
  case (Cons t ts)
  from Cons.prems(1) have safe: "reads_slot t s \<longrightarrow> \<not> being_written s"
    by simp
  have "\<exists>s1. step t s = Inr s1
      \<and> (init_phase acts s1 \<or> (\<exists>c. order_inv c s1 \<and> c @ program s1 = acts))"
  proof (cases t)
    case Producer
    from Cons.prems(2) show ?thesis
    proof
      assume "init_phase acts s"
      from init_phase_producer[OF this cl] show ?thesis using Producer by auto
    next
      assume "\<exists>c. order_inv c s \<and> c @ program s = acts"
      then obtain c where c: "order_inv c s" "c @ program s = acts" by blast
      from producer_step_order[OF c(1)] c(2) show ?thesis using Producer by auto
    qed
  next
    case Consumer
    from Cons.prems(2) show ?thesis
    proof
      assume "init_phase acts s"
      from init_phase_consumer[OF this] show ?thesis using Consumer by auto
    next
      assume "\<exists>c. order_inv c s \<and> c @ program s = acts"
      then obtain c where c: "order_inv c s" "c @ program s = acts" by blast
      from consumer_step_order[OF c(1)] safe c(2) show ?thesis using Consumer by auto
    qed
  qed
  then obtain s1 where s1: "step t s = Inr s1"
    and i1: "init_phase acts s1 \<or> (\<exists>c. order_inv c s1 \<and> c @ program s1 = acts)"
    by blast
  from Cons.prems(1) s1 have "untorn ts s1" by simp
  from Cons.IH[OF this i1] show ?case using s1 by simp
qed

lemma order_inv_subseq:
  assumes "order_inv c s"
  shows "subseq (somes (returned s)) (action_views c)"
proof -
  let ?vs = "action_views c"
  from assms have ci: "consumer_inv ?vs s" by (simp add: order_inv_def)
  from ci have "cpc s = 0 \<or> cpc s = 1 \<or> cpc s = 2" by (auto simp: consumer_inv_def)
  with ci have "\<exists>m. subseq (somes (returned s)) (take m ?vs)"
    by (auto simp: consumer_inv_def)
  then obtain m where "subseq (somes (returned s)) (take m ?vs)" by blast
  moreover have "subseq (take m ?vs) ?vs" by (rule prefix_imp_subseq[OF take_is_prefix])
  ultimately show ?thesis by (rule subseq_order.order_trans)
qed

subsection \<open>The statements interleaved: three runs\<close>

lemma start_state_shape:
  "length (frame_buffer start_state) = 256" "buffer_ptr start_state = 0"
  "read_ptr start_state = 0" "i < 256 \<Longrightarrow> frame_buffer start_state ! i = zero_frame"
  by (simp_all add: start_state_def FRAME_BUFFER_SIZE_def)

lemma example_run:
  "map_sum id returned (exec example_schedule (initial example_program 2))
     = Inr [None, Some (0x123, 2, [0x11, 0x22], 1782579200129453 / 1048576)]"
  by (simp add: example_schedule_def example_program_def initial_def producer_step_def
      consumer_step_def init_buffer_start Let_def store_slot_def slot_view_def
      start_state_shape FRAME_BUFFER_SIZE_def example_frame_def timestamp_of_rounded
      CAN_EXTENDED_ID_MASK_def CAN_EFF_FLAG_def zero_frame_def)

lemma example_untorn: "untorn example_schedule (initial example_program 2)"
  by (simp add: reads_slot_def being_written_def example_schedule_def example_program_def initial_def producer_step_def
      consumer_step_def init_buffer_start Let_def store_slot_def slot_view_def
      start_state_shape FRAME_BUFFER_SIZE_def example_frame_def timestamp_of_rounded
      CAN_EXTENDED_ID_MASK_def CAN_EFF_FLAG_def zero_frame_def)

lemma mask_clears_flags:
  "(x AND CAN_EXTENDED_ID_MASK) AND CAN_EFF_FLAG = 0"
  "(x AND CAN_EXTENDED_ID_MASK) AND CAN_RTR_FLAG = 0"
  "(x AND CAN_EXTENDED_ID_MASK) AND CAN_ERR_FLAG = 0" for x :: "32 word"
  by (simp_all add: word_bw_assocs CAN_EXTENDED_ID_MASK_def CAN_EFF_FLAG_def
      CAN_RTR_FLAG_def CAN_ERR_FLAG_def)

lemma exec_append:
  "exec (xs @ ys) s = (case exec xs s of Inl e \<Rightarrow> Inl e | Inr s' \<Rightarrow> exec ys s')"
  by (induction xs arbitrary: s) (auto split: sum.splits)

lemma push_steps:
  assumes prog: "program s = PushA f tv # rest" and p0: "ppc s = 0"
    and reg: "register_frame (shared s) f tv = Inr st'"
    and bl: "buffer_ptr (shared s) < length (frame_buffer (shared s))"
  shows "exec (replicate 5 Producer) s = Inr (s\<lparr>shared := st', ppc := 0, program := rest\<rparr>)"
proof -
  from reg have n8: "\<not> 8 < unat (fd_len f)"
    by (auto simp: register_frame_def Let_def split: if_splits)
  have r5: "replicate 5 Producer = [Producer, Producer, Producer, Producer, Producer]"
    by (simp add: numeral_eq_Suc)
  have st': "st' = (shared s)\<lparr>frame_buffer := (frame_buffer (shared s))[buffer_ptr (shared s) :=
                        (frame_buffer (shared s) ! buffer_ptr (shared s))
                          \<lparr>arbitration_id := can_id f AND CAN_EXTENDED_ID_MASK,
                           len := fd_len f,
                           data := take (unat (fd_len f)) (fd_data f)
                                   @ drop (unat (fd_len f))
                                       (data (frame_buffer (shared s) ! buffer_ptr (shared s))),
                           timestamp := timestamp_of tv\<rparr>],
                      buffer_ptr := (buffer_ptr (shared s) + 1) mod FRAME_BUFFER_SIZE\<rparr>"
    using reg n8 by (simp add: register_frame_def Let_def)
  show ?thesis
    unfolding r5 st' using prog p0 n8 bl
    by (simp add: producer_step_def Let_def store_slot_def)
qed

lemma pushes_exec:
  assumes "ring_inv (shared s) vs" and "program s = map (case_prod PushA) fs @ rest"
    and "\<forall>x \<in> set fs. classic_op (case_prod Push x)" and "ppc s = 0"
  shows "\<exists>st'. exec (replicate (5 * length fs) Producer) s
                 = Inr (s\<lparr>shared := st', ppc := 0, program := rest\<rparr>)
     \<and> ring_inv st' (vs @ map (case_prod pushed_view) fs)
     \<and> read_ptr st' = read_ptr (shared s)"
  using assms
proof (induction fs arbitrary: s vs)
  case Nil
  have "s\<lparr>shared := shared s, ppc := ppc s, program := program s\<rparr> = s" by simp
  then have "s\<lparr>shared := shared s, ppc := 0, program := rest\<rparr> = s"
    using Nil.prems(2,4) by simp
  then show ?case using Nil.prems(1) by (intro exI[of _ "shared s"]) simp
next
  case (Cons x fs)
  obtain f tv where x: "x = (f, tv)" by (cases x)
  with Cons.prems have wf: "classic_op (Push f tv)" by simp
  from push_inv[OF Cons.prems(1) wf] obtain st1 where
    reg: "register_frame (shared s) f tv = Inr st1"
    and inv1: "ring_inv st1 (vs @ [pushed_view f tv])"
    and rp1: "read_ptr st1 = read_ptr (shared s)" by blast
  from Cons.prems(1) have bl: "buffer_ptr (shared s) < length (frame_buffer (shared s))"
    by (simp add: ring_inv_def)
  let ?s1 = "s\<lparr>shared := st1, ppc := 0, program := map (case_prod PushA) fs @ rest\<rparr>"
  have prog: "program s = PushA f tv # (map (case_prod PushA) fs @ rest)"
    using Cons.prems(2) x by simp
  have e1: "exec (replicate 5 Producer) s = Inr ?s1"
    by (rule push_steps[OF prog Cons.prems(4) reg bl])
  have cl: "\<forall>x \<in> set fs. classic_op (case_prod Push x)" using Cons.prems(3) by simp
  have "\<exists>st'. exec (replicate (5 * length fs) Producer) ?s1
                 = Inr (?s1\<lparr>shared := st', ppc := 0, program := rest\<rparr>)
     \<and> ring_inv st' ((vs @ [pushed_view f tv]) @ map (case_prod pushed_view) fs)
     \<and> read_ptr st' = read_ptr (shared ?s1)"
    by (rule Cons.IH) (simp_all add: inv1 cl)
  then obtain st' where
    e2: "exec (replicate (5 * length fs) Producer) ?s1
           = Inr (?s1\<lparr>shared := st', ppc := 0, program := rest\<rparr>)"
    and inv': "ring_inv st' ((vs @ [pushed_view f tv]) @ map (case_prod pushed_view) fs)"
    and rp': "read_ptr st' = read_ptr (shared ?s1)" by blast
  have split: "replicate (5 * length (x # fs)) Producer
      = replicate 5 Producer @ replicate (5 * length fs) Producer"
    by (simp add: replicate_add[symmetric])
  have a: "exec (replicate (5 * length (x # fs)) Producer) s
      = Inr (s\<lparr>shared := st', ppc := 0, program := rest\<rparr>)"
    unfolding split exec_append e1 using e2 by simp
  have b: "ring_inv st' (vs @ map (case_prod pushed_view) (x # fs))" using inv' x by simp
  have c: "read_ptr st' = read_ptr (shared s)" using rp' rp1 by simp
  from a b c show ?case by blast
qed

lemma action_views_map:
  "action_views (map (\<lambda>i. PushA (g i) tv) xs) = map (\<lambda>i. pushed_view (g i) tv) xs"
  by (induction xs) auto

lemma torn_not_pushed: "(256, 2, [0, 0], 0) \<notin> set (action_views tear_program)"
proof
  assume "(256, 2, [0, 0], 0) \<in> set (action_views tear_program)"
  then obtain i where i: "i < 257"
    and v: "pushed_view (seq_frame i) example_tv = (256, 2, [0, 0], 0)"
    by (auto simp: tear_program_def action_views_map)
  from v have hi: "(of_nat (i div 256) :: 8 word) = 0"
    and lo: "(of_nat (i mod 256) :: 8 word) = 0"
    and idw: "(of_nat i :: 32 word) AND CAN_EXTENDED_ID_MASK = 256"
    by (simp_all add: pushed_view_def seq_frame_def)
  from lo have "unat (of_nat (i mod 256) :: 8 word) = 0" by simp
  then have m: "i mod 256 = 0" by (simp add: unat_of_nat)
  from hi have "unat (of_nat (i div 256) :: 8 word) = 0" by simp
  then have "i div 256 mod 256 = 0" by (simp add: unat_of_nat)
  moreover have "i div 256 < 256" using i by simp
  ultimately have dv: "i div 256 = 0" by simp
  have "i = 256 * (i div 256) + i mod 256" by simp
  then have "i = 0" unfolding m dv by simp
  with idw show False by simp
qed

lemma tear_run:
  "map_sum id (\<lambda>s. (returned s, program s, ppc s))
       (exec tear_schedule (initial tear_program 1))
     = Inr ([Some (256, 2, [0, 0], 0)], [PushA (seq_frame 256) example_tv], 1)"
proof -
  define fs where "fs = map (\<lambda>i. (seq_frame i, example_tv)) [0..<255]"
  define p255 where "p255 = PushA (seq_frame 255) example_tv"
  define p256 where "p256 = PushA (seq_frame 256) example_tv"
  have upt: "[0..<257] = [0..<255] @ [255, 256]"
  proof -
    have "[0..<257] = [0..<256] @ [256::nat]" using upt_Suc_append[of 0 256] by simp
    moreover have "[0..<256] = [0..<255] @ [255::nat]" using upt_Suc_append[of 0 255] by simp
    ultimately show ?thesis by simp
  qed
  have prog: "tear_program = InitA # map (case_prod PushA) fs @ [p255, p256]"
    unfolding tear_program_def upt by (simp add: fs_def p255_def p256_def comp_def)
  have cl: "\<forall>x \<in> set fs. classic_op (case_prod Push x)"
    by (auto simp: fs_def seq_frame_def)
  have len: "length fs = 255" by (simp add: fs_def)
  define s0 where "s0 = initial tear_program 1"
  define s1 where
    "s1 = s0\<lparr>shared := start_state, program := map (case_prod PushA) fs @ [p255, p256]\<rparr>"
  have e1: "step Producer s0 = Inr s1"
    by (simp add: s0_def s1_def initial_def prog producer_step_def init_buffer_start)
  have "\<exists>st'. exec (replicate (5 * length fs) Producer) s1
                 = Inr (s1\<lparr>shared := st', ppc := 0, program := [p255, p256]\<rparr>)
     \<and> ring_inv st' ([] @ map (case_prod pushed_view) fs)
     \<and> read_ptr st' = read_ptr (shared s1)"
    by (rule pushes_exec) (simp_all add: s1_def s0_def initial_def ring_inv_start cl)
  then obtain st2 where
    e2raw: "exec (replicate (5 * length fs) Producer) s1
              = Inr (s1\<lparr>shared := st2, ppc := 0, program := [p255, p256]\<rparr>)"
    and inv2: "ring_inv st2 (map (case_prod pushed_view) fs)"
    and rp2: "read_ptr st2 = 0"
    by (auto simp: s1_def start_state_shape)
  define s2 where "s2 = s1\<lparr>shared := st2, ppc := 0, program := [p255, p256]\<rparr>"
  have e2: "exec (replicate 1275 Producer) s1 = Inr s2" using e2raw len by (simp add: s2_def)
  have bp2: "buffer_ptr st2 = 255" using inv2 len by (simp add: ring_inv_def)
  define s3 where "s3 = s2\<lparr>cpc := 1\<rparr>"
  have e3: "exec [Consumer] s2 = Inr s3"
    using rp2 bp2
    by (simp add: consumer_step_def Let_def s3_def s2_def s1_def s0_def initial_def)
  have "\<exists>st'. exec (replicate (5 * length [(seq_frame 255, example_tv)]) Producer) s3
                 = Inr (s3\<lparr>shared := st', ppc := 0, program := [p256]\<rparr>)
     \<and> ring_inv st' (map (case_prod pushed_view) fs
                       @ map (case_prod pushed_view) [(seq_frame 255, example_tv)])
     \<and> read_ptr st' = read_ptr (shared s3)"
    by (rule pushes_exec) (simp_all add: s3_def s2_def inv2 p255_def seq_frame_def)
  then obtain st4 where
    e4raw: "exec (replicate (5 * length [(seq_frame 255, example_tv)]) Producer) s3
              = Inr (s3\<lparr>shared := st4, ppc := 0, program := [p256]\<rparr>)"
    and inv4: "ring_inv st4 (map (case_prod pushed_view) fs
                              @ [pushed_view (seq_frame 255) example_tv])"
    and rp4: "read_ptr st4 = 0"
    using rp2 by (auto simp: s3_def s2_def)
  define s4 where "s4 = s3\<lparr>shared := st4, ppc := 0, program := [p256]\<rparr>"
  have e4: "exec (replicate 5 Producer) s3 = Inr s4" using e4raw by (simp add: s4_def)
  have bp4: "buffer_ptr st4 = 0" and L4: "length (frame_buffer st4) = 256"
    using inv4 len by (simp_all add: ring_inv_def)
  have "slot_view (frame_buffer st4 ! (0 mod 256))
      = (map (case_prod pushed_view) fs @ [pushed_view (seq_frame 255) example_tv]) ! 0"
    using inv4 len by (simp add: ring_inv_def slot_view_def Let_def)
  then have slot0: "slot_view (frame_buffer st4 ! 0) = pushed_view (seq_frame 0) example_tv"
    using len by (simp add: nth_append fs_def)
  define s5 where
    "s5 = s4\<lparr>shared := store_slot
              (\<lambda>x. x\<lparr>arbitration_id := can_id (seq_frame 256) AND CAN_EXTENDED_ID_MASK\<rparr>)
              0 st4,
            ppc := 1\<rparr>"
  have e5: "exec [Producer] s4 = Inr s5"
    using bp4 by (simp add: producer_step_def Let_def s5_def s4_def p256_def)
  have r6: "replicate 6 Producer = replicate 5 Producer @ [Producer]"
    by (simp add: numeral_eq_Suc)
  have e45: "exec (replicate 6 Producer) s3 = Inr s5"
    unfolding r6 exec_append e4 using e5 by simp
  have torn: "slot_view (frame_buffer (shared s5) ! read_ptr (shared s5)) = (256, 2, [0, 0], 0)"
  proof -
    have "read_ptr (shared s5) = 0" using rp4 by (simp add: s5_def store_slot_shape)
    moreover have "frame_buffer (shared s5) ! 0
        = (frame_buffer st4 ! 0)\<lparr>arbitration_id :=
             can_id (seq_frame 256) AND CAN_EXTENDED_ID_MASK\<rparr>"
      using L4 by (simp add: s5_def store_slot_def)
    ultimately show ?thesis
      using slot0
      by (auto simp: slot_view_def pushed_view_def seq_frame_def timestamp_of_example
          CAN_EXTENDED_ID_MASK_def)
  qed
  have c5: "cpc s5 = 1" "pops_left s5 = 1" "returned s5 = []" "program s5 = [p256]"
    "ppc s5 = 1"
    by (simp_all add: s5_def s4_def s3_def s2_def s1_def s0_def initial_def)
  have e6: "map_sum id (\<lambda>s. (returned s, program s, ppc s)) (exec [Consumer, Consumer] s5)
      = Inr ([Some (256, 2, [0, 0], 0)], [PushA (seq_frame 256) example_tv], 1)"
    using c5 torn by (simp add: consumer_step_def Let_def p256_def)
  have t3: "exec (replicate 6 Producer @ [Consumer, Consumer]) s3
      = exec [Consumer, Consumer] s5"
    by (simp only: exec_append e45 sum.case)
  have t2: "exec ([Consumer] @ replicate 6 Producer @ [Consumer, Consumer]) s2
      = exec [Consumer, Consumer] s5"
    by (simp only: exec_append[of "[Consumer]"] e3 sum.case t3)
  have t1: "exec (replicate 1275 Producer @ [Consumer] @ replicate 6 Producer
                  @ [Consumer, Consumer]) s1
      = exec [Consumer, Consumer] s5"
    by (simp only: exec_append[of "replicate 1275 Producer"] e2 sum.case t2)
  have "exec tear_schedule s0 = exec [Consumer, Consumer] s5"
    unfolding tear_schedule_def by (simp only: exec.simps(2) e1 sum.case t1)
  then show ?thesis using e6 by (simp add: s0_def)
qed

lemma restart_run:
  "map_sum id returned (exec restart_schedule (initial restart_program 1))
     = Inr [Some (0, 0, [], 0)]"
  by (simp add: restart_schedule_def restart_program_def initial_def
      producer_step_def consumer_step_def init_buffer_start Let_def store_slot_def
      slot_view_def start_state_shape FRAME_BUFFER_SIZE_def example_frame_def
      init_buffer_def)

subsection \<open>Byte-order reversal: the loop\<close>

lemma rev_loop_inv:
  assumes dj: "disjoint_bufs src dst cnt"
    and i0: "0 \<le> i" and il: "i \<le> cnt"
    and out: "\<And>a. (\<And>k. k < nat i \<Longrightarrow> a \<noteq> dst + k) \<Longrightarrow> mc a = m a"
    and inn: "\<And>k. k < nat i \<Longrightarrow> mc (dst + k) = m (src + (nat cnt - 1 - k))"
  shows "(\<forall>a. (\<forall>k < nat cnt. a \<noteq> dst + k) \<longrightarrow> rev_loop mc src dst cnt i a = m a)
       \<and> (\<forall>k < nat cnt. rev_loop mc src dst cnt i (dst + k) = m (src + (nat cnt - 1 - k)))"
  using dj i0 il out inn
proof (induction mc src dst cnt i rule: rev_loop.induct)
  case (1 mc src dst cnt i)
  note dj = "1.prems"(1) and i0 = "1.prems"(2) and il = "1.prems"(3)
    and out = "1.prems"(4) and inn = "1.prems"(5)
  show ?case
  proof (cases "i < cnt")
    case False
    with il have e: "i = cnt" by simp
    have r: "rev_loop mc src dst cnt i = mc" using False by (subst rev_loop.simps) simp
    show ?thesis unfolding r using out inn e by auto
  next
    case True
    let ?m' = "mc(dst + nat i := mc (src + nat (cnt - i - 1)))"
    have srcval: "mc (src + nat (cnt - i - 1)) = m (src + nat (cnt - i - 1))"
    proof (rule out)
      fix k assume "k < nat i"
      define x n where "x = nat (cnt - i - 1)" and "n = nat cnt"
      have "x < n" "k < n"
        using True i0 \<open>k < nat i\<close> by (simp_all add: x_def n_def)
      moreover have "src + n \<le> dst \<or> dst + n \<le> src"
        using dj unfolding disjoint_bufs_def n_def .
      ultimately have "src + x \<noteq> dst + k" by linarith
      then show "src + nat (cnt - i - 1) \<noteq> dst + k" by (simp add: x_def)
    qed
    have a: "?m' a = m a" if "\<And>k. k < nat (i + 1) \<Longrightarrow> a \<noteq> dst + k" for a
    proof -
      have "a \<noteq> dst + nat i" using that[of "nat i"] i0 by simp
      moreover have "mc a = m a"
        by (rule out) (use that i0 in auto)
      ultimately show ?thesis by simp
    qed
    have b: "?m' (dst + k) = m (src + (nat cnt - 1 - k))" if "k < nat (i + 1)" for k
    proof (cases "k = nat i")
      case True
      have "nat (cnt - i - 1) = nat cnt - 1 - nat i" using i0 \<open>i < cnt\<close> by linarith
      then show ?thesis using True srcval by simp
    next
      case False
      then have "k < nat i" using that i0 by linarith
      then show ?thesis using inn False by simp
    qed
    have i1: "0 \<le> i + 1" "i + 1 \<le> cnt" using True i0 by simp_all
    have step: "rev_loop mc src dst cnt i = rev_loop ?m' src dst cnt (i + 1)"
      using True by (subst rev_loop.simps) simp
    show ?thesis unfolding step by (rule "1.IH"[OF True dj i1 a b])
  qed
qed

lemma reverse_endian_spec:
  assumes dj: "disjoint_bufs src dst cnt"
  shows "(\<forall>a. (\<forall>k < nat cnt. a \<noteq> dst + k) \<longrightarrow> reverse_endian m src dst cnt a = m a)
       \<and> (\<forall>k < nat cnt. reverse_endian m src dst cnt (dst + k) = m (src + (nat cnt - 1 - k)))"
proof (cases "0 \<le> cnt")
  case True
  show ?thesis unfolding reverse_endian_def
    by (rule rev_loop_inv[OF dj _ True]) simp_all
next
  case False
  then have "reverse_endian m src dst cnt = m"
    unfolding reverse_endian_def by (subst rev_loop.simps) simp
  with False show ?thesis by simp
qed


subsection \<open>The interface index cache: the loops\<close>

lemma scan_hit_miss:
  "(\<And>j. i \<le> j \<Longrightarrow> j < MAXIFNAMES \<Longrightarrow> d ! j \<noteq> x) \<Longrightarrow> scan_hit d x i = None"
proof (induction d x i rule: scan_hit.induct)
  case (1 d ifidx i)
  show ?case
  proof (cases "i < MAXIFNAMES")
    case True
    then have ne: "d ! i \<noteq> ifidx" using "1.prems"[of i] by simp
    have "scan_hit d ifidx (i + 1) = None"
      by (rule "1.IH"[OF True ne]) (use "1.prems" in simp)
    then show ?thesis using True ne by (subst scan_hit.simps) simp
  next
    case False
    then show ?thesis by (subst scan_hit.simps) simp
  qed
qed

lemma sweep_fst:
  "i \<le> MAXIFNAMES \<Longrightarrow> length d = MAXIFNAMES \<Longrightarrow>
   fst (sweep nm d ifr i) = take i d @ invalidate nm (drop i d)"
proof (induction nm d ifr i rule: sweep.induct)
  case (1 nm d ifr i)
  show ?case
  proof (cases "i < MAXIFNAMES")
    case False
    with "1.prems" have "i = length d" by simp
    then show ?thesis using False by (subst sweep.simps) (simp add: invalidate_def)
  next
    case True
    then have il: "i < length d" using "1.prems" by simp
    have dr: "drop i d = d ! i # drop (Suc i) d" using il by (simp add: Cons_nth_drop_Suc)
    have tk: "take (Suc i) d = take i d @ [d ! i]" using il by (simp add: take_Suc_conv_app_nth)
    show ?thesis
    proof (cases "d ! i = 0")
      case z: True
      have "fst (sweep nm d ifr (i + 1)) = take (i + 1) d @ invalidate nm (drop (i + 1) d)"
        using "1.IH"(3)[OF True] z True "1.prems" by simp
      moreover have "sweep nm d ifr i = sweep nm d ifr (i + 1)"
        using True z by (subst sweep.simps) simp
      ultimately show ?thesis using z dr tk by (simp add: invalidate_def)
    next
      case nz: False
      show ?thesis
      proof (cases "nm (d ! i)")
        case None
        have "fst (sweep nm (d[i := 0]) ifr (i + 1))
            = take (i + 1) (d[i := 0]) @ invalidate nm (drop (i + 1) (d[i := 0]))"
          using "1.IH"(1)[OF True nz None] True "1.prems" by simp
        moreover have "sweep nm d ifr i = sweep nm (d[i := 0]) ifr (i + 1)"
          using True nz None by (subst sweep.simps) simp
        moreover have "take (i + 1) (d[i := 0]) = take i d @ [0]"
          using il by (simp add: take_Suc_conv_app_nth)
        ultimately show ?thesis using nz None dr by (simp add: invalidate_def)
      next
        case (Some n)
        have "fst (sweep nm d n (i + 1)) = take (i + 1) d @ invalidate nm (drop (i + 1) d)"
          using "1.IH"(2)[OF True nz Some] True "1.prems" by simp
        moreover have "sweep nm d ifr i = sweep nm d n (i + 1)"
          using True nz Some by (subst sweep.simps) simp
        ultimately show ?thesis using nz Some dr tk by (simp add: invalidate_def)
      qed
    qed
  qed
qed

lemma first_free_spec:
  "i \<le> MAXIFNAMES \<Longrightarrow>
   i \<le> first_free d i \<and> first_free d i \<le> MAXIFNAMES
   \<and> (\<forall>j. i \<le> j \<and> j < first_free d i \<longrightarrow> d ! j \<noteq> 0)
   \<and> (first_free d i < MAXIFNAMES \<longrightarrow> d ! first_free d i = 0)"
proof (induction d i rule: first_free.induct)
  case (1 d i)
  show ?case
  proof (cases "i < MAXIFNAMES")
    case False
    then have "first_free d i = i" by (subst first_free.simps) simp
    then show ?thesis using False "1.prems" by simp
  next
    case True
    show ?thesis
    proof (cases "d ! i = 0")
      case z: True
      have "first_free d i = i" using True z by (subst first_free.simps) simp
      then show ?thesis using True z by simp
    next
      case nz: False
      have e: "first_free d i = first_free d (i + 1)"
        using True nz by (subst first_free.simps) simp
      from "1.IH"[OF True nz] True
      have ih: "i + 1 \<le> first_free d (i + 1)" "first_free d (i + 1) \<le> MAXIFNAMES"
        "\<And>j. i + 1 \<le> j \<Longrightarrow> j < first_free d (i + 1) \<Longrightarrow> d ! j \<noteq> 0"
        "first_free d (i + 1) < MAXIFNAMES \<Longrightarrow> d ! first_free d (i + 1) = 0"
        by auto
      have "d ! j \<noteq> 0" if "i \<le> j" "j < first_free d (i + 1)" for j
      proof (cases "j = i")
        case True
        then show ?thesis using nz by simp
      next
        case False
        then show ?thesis using that ih(3)[of j] by simp
      qed
      then show ?thesis unfolding e using ih by auto
    qed
  qed
qed


subsection \<open>The filter compiler: scanning bare hexadecimal tokens\<close>

lemma isxdigit_not_special:
  assumes "isxdigit c"
  shows "\<not> isspace c" "c \<noteq> CHR ''-''" "c \<noteq> CHR ''+''" "c \<noteq> CHR ''x''" "c \<noteq> CHR ''X''"
    "c \<noteq> CHR '':''" "c \<noteq> CHR ''~''"
  using assms by (auto simp: isxdigit_def xdigit_def isspace_def Let_def)

lemma xdigit_lt: "xdigit c = Some v \<Longrightarrow> v < 16"
  by (auto simp: xdigit_def Let_def split: if_splits)

lemma hexval_bound:
  "\<forall>c \<in> set ds. isxdigit c \<Longrightarrow> hexval acc ds < (acc + 1) * 16 ^ length ds"
proof (induction ds arbitrary: acc)
  case Nil
  then show ?case by simp
next
  case (Cons c ds)
  then obtain v where v: "xdigit c = Some v" by (auto simp: isxdigit_def)
  then have v16: "v < 16" by (rule xdigit_lt)
  from Cons have "hexval (16 * acc + v) ds < (16 * acc + v + 1) * 16 ^ length ds" by simp
  also have "\<dots> \<le> (16 * acc + 16) * 16 ^ length ds"
    using v16 by (intro mult_right_mono) simp_all
  also have "\<dots> = (acc + 1) * 16 ^ length (c # ds)" by (simp add: algebra_simps)
  finally show ?case using v by simp
qed

lemma hexval_lt_pow: "\<forall>c \<in> set ds. isxdigit c \<Longrightarrow> hexval 0 ds < 16 ^ length ds"
  using hexval_bound[of ds 0] by simp

lemma hex_token_fits: "hex_token ds \<Longrightarrow> hexval 0 ds < 2 ^ 32"
proof -
  assume h: "hex_token ds"
  then have "hexval 0 ds < 16 ^ length ds" by (simp add: hex_token_def hexval_lt_pow)
  also have "(16::nat) ^ length ds \<le> 16 ^ 8"
    using h by (intro power_increasing) (simp_all add: hex_token_def)
  finally show ?thesis by simp
qed

lemma scan_x_hex:
  assumes h: "hex_token ds" and r: "rest = [] \<or> \<not> isxdigit (hd rest) \<and> hd rest \<noteq> CHR ''x'' \<and> hd rest \<noteq> CHR ''X''"
  shows "scan_x (ds @ rest) = Scanned (of_nat (hexval 0 ds)) rest"
proof -
  from h obtain a ds' where ds: "ds = a # ds'" by (cases ds) (auto simp: hex_token_def)
  from h have all: "\<forall>c \<in> set ds. isxdigit c" by (simp add: hex_token_def)
  then have a: "isxdigit a" using ds by simp
  note sp = isxdigit_not_special[OF a]
  have s1: "dropWhile isspace (ds @ rest) = ds @ rest" using sp(1) ds by simp
  have nopre: "(case ds @ rest of
                  a # b # r \<Rightarrow>
                    if a = CHR ''0'' \<and> (b = CHR ''x'' \<or> b = CHR ''X'') then r else ds @ rest
                | _ \<Rightarrow> ds @ rest) = ds @ rest"
  proof (cases ds')
    case Nil
    then show ?thesis using ds r by (cases rest) auto
  next
    case (Cons b ds'')
    then have "isxdigit b" using all ds by simp
    from isxdigit_not_special(4,5)[OF this] show ?thesis using ds Cons by simp
  qed
  have tw: "takeWhile isxdigit (ds @ rest) = ds"
    using all r by (cases rest) (auto simp: takeWhile_append2)
  have dw: "dropWhile isxdigit (ds @ rest) = rest"
    using all r by (cases rest) (auto simp: dropWhile_append2)
  have fit: "\<not> 2 ^ 32 \<le> hexval 0 ds" using hex_token_fits[OF h] by simp
  have ne: "ds \<noteq> []" using ds by simp
  have hd1: "(case ds @ rest of [] \<Rightarrow> False | c # r \<Rightarrow> c = CHR ''-'') = False"
    using ds sp(2) by simp
  have hd2: "(case ds @ rest of [] \<Rightarrow> []
                | c # r \<Rightarrow> if c = CHR ''-'' \<or> c = CHR ''+'' then r else ds @ rest) = ds @ rest"
    using ds sp(2,3) by simp
  show ?thesis
    unfolding scan_x_def Let_def s1 hd1 hd2 nopre tw dw using fit ne by simp
qed


lemma sscanf_hex_pair:
  assumes d: "hex_token ds" and m: "hex_token ms"
    and sep: "sep = CHR '':'' \<or> sep = CHR ''~''"
  shows "sscanf_x_sep_x c (ds @ sep # ms)
       = (if c = sep then Two (of_nat (hexval 0 ds)) (of_nat (hexval 0 ms)) else Fewer)"
proof -
  have nx: "\<not> isxdigit sep" "sep \<noteq> CHR ''x''" "sep \<noteq> CHR ''X''"
    using sep by (auto simp: isxdigit_def xdigit_def Let_def)
  have 1: "scan_x (ds @ sep # ms) = Scanned (of_nat (hexval 0 ds)) (sep # ms)"
    by (rule scan_x_hex[OF d]) (use nx in simp)
  have 2: "scan_x ms = Scanned (of_nat (hexval 0 ms)) []"
    using scan_x_hex[OF m, of "[]"] by simp
  show ?thesis by (simp add: sscanf_x_sep_x_def 1 2)
qed

lemma byte_8_sep:
  assumes d: "hex_token ds" and m: "hex_token ms"
    and sep: "sep = CHR '':'' \<or> sep = CHR ''~''"
    and mem: "8 \<le> length ds + 1 + length ms \<or> after (7 - (length ds + 1 + length ms)) \<noteq> sep"
  shows "byte_at (ds @ sep # ms) after 8 = sep \<longleftrightarrow> length ds = 8"
proof (cases "length ds = 8")
  case True
  then show ?thesis by (simp add: byte_at_def nth_append)
next
  case False
  with d have lt: "length ds < 8" by (simp add: hex_token_def)
  let ?L = "length ds + 1 + length ms"
  have z: "sep \<noteq> CHR 0x00" using sep by auto
  have "byte_at (ds @ sep # ms) after 8 \<noteq> sep"
  proof (cases "8 < ?L")
    case True
    then have i: "8 - length ds - 1 < length ms" using lt by linarith
    have "(ds @ sep # ms) ! 8 = ms ! (8 - length ds - 1)"
      using lt by (simp add: nth_append nth_Cons')
    moreover have "isxdigit (ms ! (8 - length ds - 1))"
      using m i by (simp add: hex_token_def)
    ultimately have "(ds @ sep # ms) ! 8 \<noteq> sep"
      using isxdigit_not_special(6,7) sep by metis
    then show ?thesis using True by (simp add: byte_at_def)
  next
    case False
    show ?thesis
    proof (cases "?L = 8")
      case True
      then show ?thesis using z by (simp add: byte_at_def)
    next
      case ne: False
      with False have l7: "?L < 8" by linarith
      then have "after (7 - ?L) \<noteq> sep" using mem by linarith
      moreover have "8 - ?L - 1 = 7 - ?L" by simp
      ultimately show ?thesis using l7 by (simp add: byte_at_def)
    qed
  qed
  with False show ?thesis by simp
qed

lemma small_id_no_eff:
  assumes "v < 2 ^ 28"
  shows "(of_nat v :: 32 word) AND CAN_EFF_FLAG = 0"
    and "((of_nat v :: 32 word) OR CAN_INV_FILTER) AND CAN_EFF_FLAG = 0"
proof -
  have "unat (of_nat v :: 32 word) = v"
    using assms by (simp add: unat_of_nat)
  then have "(of_nat v :: 32 word) < 2 ^ 28"
    using assms by (simp add: word_less_nat_alt)
  then have a: "(of_nat v :: 32 word) AND mask 28 = of_nat v"
    by (simp add: less_mask_eq)
  have b: "(mask 28 :: 32 word) AND CAN_EFF_FLAG = 0"
    by (simp add: CAN_EFF_FLAG_def mask_eq_exp_minus_1)
  have "(of_nat v :: 32 word) AND CAN_EFF_FLAG = (of_nat v AND mask 28) AND CAN_EFF_FLAG"
    by (simp only: a)
  also have "\<dots> = of_nat v AND (mask 28 AND CAN_EFF_FLAG)" by (simp only: word_bw_assocs)
  finally show 1: "(of_nat v :: 32 word) AND CAN_EFF_FLAG = 0" by (simp add: b)
  have "CAN_INV_FILTER AND CAN_EFF_FLAG = 0"
    by (simp add: CAN_INV_FILTER_def CAN_EFF_FLAG_def)
  then show "((of_nat v :: 32 word) OR CAN_INV_FILTER) AND CAN_EFF_FLAG = 0"
    using 1 by (simp add: word_ao_dist)
qed

lemma eff_flag_set:
  "((w :: 32 word) OR CAN_EFF_FLAG) AND CAN_EFF_FLAG = CAN_EFF_FLAG"
  by (simp add: word_ao_absorbs ac_simps)

lemma eff_flag_nonzero: "CAN_EFF_FLAG \<noteq> 0"
  by (simp add: CAN_EFF_FLAG_def)

lemma parse_hex_pair:
  assumes d: "hex_token ds" and m: "hex_token ms"
    and sep: "sep = CHR '':'' \<or> sep = CHR ''~''"
    and mem: "8 \<le> length ds + 1 + length ms \<or> after (7 - (length ds + 1 + length ms)) \<noteq> sep"
  shows "parse_filter after fs (ds @ sep # ms)
       = Inr (fs\<lparr>rfilter := rfilter fs @
                [\<lparr>filter_can_id =
                     (if length ds = 8
                      then (of_nat (hexval 0 ds)
                              OR (if sep = CHR ''~'' then CAN_INV_FILTER else 0))
                           OR CAN_EFF_FLAG
                      else of_nat (hexval 0 ds)
                             OR (if sep = CHR ''~'' then CAN_INV_FILTER else 0)),
                   filter_can_mask = of_nat (hexval 0 ms) AND NOT CAN_ERR_FLAG\<rparr>]\<rparr>)"
proof -
  note b8 = byte_8_sep[where after = after, OF d m sep mem]
  from sep show ?thesis
  proof
    assume s: "sep = CHR '':''"
    have sc: "sscanf_x_sep_x c (ds @ CHR '':'' # ms)
        = (if c = CHR '':'' then Two (of_nat (hexval 0 ds)) (of_nat (hexval 0 ms)) else Fewer)"
      for c using sscanf_hex_pair[OF d m, of "CHR '':''" c] by simp
    show ?thesis using b8 unfolding s parse_filter_def by (simp add: sc)
  next
    assume s: "sep = CHR ''~''"
    have sc: "sscanf_x_sep_x c (ds @ CHR ''~'' # ms)
        = (if c = CHR ''~'' then Two (of_nat (hexval 0 ds)) (of_nat (hexval 0 ms)) else Fewer)"
      for c using sscanf_hex_pair[OF d m, of "CHR ''~''" c] by simp
    show ?thesis using b8 unfolding s parse_filter_def by (simp add: sc)
  qed
qed

lemma short_id_small:
  assumes d: "hex_token ds" and lt: "length ds \<noteq> 8"
  shows "hexval 0 ds < 2 ^ 28"
proof -
  from d lt have l7: "length ds \<le> 7" by (simp add: hex_token_def)
  from d have "hexval 0 ds < 16 ^ length ds" by (simp add: hex_token_def hexval_lt_pow)
  also have "(16::nat) ^ length ds \<le> 16 ^ 7"
    using l7 by (intro power_increasing) simp_all
  finally show ?thesis by simp
qed


subsection \<open>Claims\<close>

text \<open>
  C1 (as the code has it). Starting from the empty buffer and pushing \<open>n\<close> frames
  with no pop in between, \<open>k\<close> pops return the first \<open>k\<close> of the last
  \<open>n mod 256\<close> frames pushed, in push order, and nothing more: exactly
  \<open>n mod 256\<close> frames are readable, not 256, because the write cursor passes the
  read cursor without moving it.
\<close>

theorem overwrite_keeps_tail:
  assumes "\<forall>x \<in> set fs. classic_op (case_prod Push x)"
  shows "popped (run start_state (pushes fs @ replicate k Pop))
     = Inr (take k (drop (length fs - length fs mod FRAME_BUFFER_SIZE)
                      (map (case_prod pushed_view) fs)))"
proof -
  from pushes_then_pops[OF assms, of k] show ?thesis
    by (auto simp: popped_def FRAME_BUFFER_SIZE_def)
qed

theorem overwrite_keeps_tail_witness:
  "popped (run start_state (pushes [example_push 1, example_push 2] @ replicate 3 Pop))
     = Inr [(1, 2, [0x11, 0x22], 0), (2, 2, [0x11, 0x22], 0)]"
proof -
  have "\<forall>x \<in> set [example_push 1, example_push 2]. classic_op (case_prod Push x)"
    by (simp add: example_push_def example_frame_def)
  from overwrite_keeps_tail[OF this, of 3] show ?thesis
    by (simp add: FRAME_BUFFER_SIZE_def example_push_def example_frame_def timestamp_of_example
        pushed_view_def CAN_EXTENDED_ID_MASK_def CAN_EFF_FLAG_def)
qed

text \<open>
  C1, the claim as stated, fails: after 257 pushes (identifiers 0 to 256) into the
  empty buffer, 256 pops return one frame, the last one pushed, not 256 frames.
\<close>

theorem overwrite_counterexample:
  "popped (run start_state (pushes (map example_push [0..<257]) @ replicate 256 Pop))
     = Inr [(256, 2, [0x11, 0x22], 0)]"
proof -
  have wf: "\<forall>x \<in> set (map example_push [0..<257]). classic_op (case_prod Push x)"
    by (simp add: example_push_def example_frame_def)
  have v: "(case_prod pushed_view \<circ> example_push) 256 = (256, 2, [0x11, 0x22], 0)"
    by (simp add: example_push_def example_frame_def timestamp_of_example pushed_view_def
        CAN_EXTENDED_ID_MASK_def CAN_EFF_FLAG_def)
  from pushes_then_pops[OF wf, of 256] obtain st where
    "run start_state (pushes (map example_push [0..<257]) @ replicate 256 Pop)
      = Inr (st, take 256 (drop 256 (map (case_prod pushed_view \<circ> example_push) [0..<257])))"
    by auto
  then show ?thesis unfolding drop_256_upt v by (simp add: popped_def)
qed

text \<open>
  C2 (as the code has it). The method table binds the name \<^verbatim>\<open>terminate\<close> to
  \<^verbatim>\<open>get_frame_from_buffer\<close>, so the exposed operation is a pop: it leaves
  \<^verbatim>\<open>running\<close> as it was, and with one unread frame in the buffer it returns that
  frame and moves the read cursor. The C function \<^verbatim>\<open>terminate\<close>, which clears the
  flag, is not reachable from Python.
\<close>

theorem exposed_terminate_is_recv:
  "call_method ''terminate'' st = Returned (get_frame_from_buffer st)
   \<and> running (snd (get_frame_from_buffer st)) = running st
   \<and> (case register_frame start_state (example_frame 291) example_tv of
         Inl e \<Rightarrow> False
       | Inr st1 \<Rightarrow>
           running st1 = 1
           \<and> (case call_method ''terminate'' st1 of
                Returned (r, st2) \<Rightarrow>
                  r = Some (0x123, 2, [0x11, 0x22], 0) \<and> read_ptr st2 = 1 \<and> running st2 = 1
              | _ \<Rightarrow> False))"
proof -
  have a: "call_method ''terminate'' st = Returned (get_frame_from_buffer st)" for st
    by (simp add: call_method_def FputsMethods_def)
  have b: "running (snd (get_frame_from_buffer st)) = running st"
    by (simp add: get_frame_from_buffer_def Let_def)
  show ?thesis
    unfolding a
    by (simp add: b register_frame_def example_frame_def timestamp_of_example start_state_def
        get_frame_from_buffer_def FRAME_BUFFER_SIZE_def Let_def CAN_EXTENDED_ID_MASK_def
        CAN_EFF_FLAG_def)
qed

text \<open>
  C3 (as the code has it). Take any program of the producer, calls of
  \<^verbatim>\<open>init_buffer\<close> and pushes of frames of at most 8 bytes, any number of pops, and
  any schedule of their statements. The run goes through, and in every frame a
  pop returns the extended-frame, remote and error flag bits of the identifier
  are 0: the identifier is the low 29 bits of a received \<^verbatim>\<open>can_id\<close> (line 737
  masks it with \<^verbatim>\<open>CAN_EXTENDED_ID_MASK\<close>), or the 0 of a cleared slot, so the
  extended-frame flag is not in it. With it come a length, that of a received
  frame or 0, that many payload bytes, each the byte at its position in a
  received frame or 0, and a timestamp, the \<^verbatim>\<open>double\<close> computed from a receive time
  or 0.
\<close>

theorem popped_frame_fields:
  assumes "\<forall>a \<in> set prog. classic_action a"
  shows "\<exists>s. exec sched (initial prog n) = Inr s
     \<and> (\<forall>i l d t. Some (i, l, d, t) \<in> set (returned s) \<longrightarrow>
          i AND CAN_EFF_FLAG = 0 \<and> i AND CAN_RTR_FLAG = 0 \<and> i AND CAN_ERR_FLAG = 0
          \<and> (i = 0 \<or> (\<exists>f tv. PushA f tv \<in> set prog \<and> i = can_id f AND CAN_EXTENDED_ID_MASK))
          \<and> (l = 0 \<or> (\<exists>f tv. PushA f tv \<in> set prog \<and> l = fd_len f))
          \<and> length d = unat l
          \<and> (\<forall>k < length d.
                d ! k = 0
                \<or> (\<exists>f tv. PushA f tv \<in> set prog \<and> k < unat (fd_len f)
                      \<and> d ! k = fd_data f ! k))
          \<and> (t = 0 \<or> (\<exists>f tv. PushA f tv \<in> set prog \<and> t = timestamp_of tv)))"
proof -
  from exec_fields[OF assms fields_inv_initial] obtain s where
    ex: "exec sched (initial prog n) = Inr s" and inv: "fields_inv prog s" by blast
  have "i AND CAN_EFF_FLAG = 0 \<and> i AND CAN_RTR_FLAG = 0 \<and> i AND CAN_ERR_FLAG = 0
      \<and> (i = 0 \<or> (\<exists>f tv. PushA f tv \<in> set prog \<and> i = can_id f AND CAN_EXTENDED_ID_MASK))
      \<and> (l = 0 \<or> (\<exists>f tv. PushA f tv \<in> set prog \<and> l = fd_len f))
      \<and> length d = unat l
      \<and> (\<forall>k < length d.
            d ! k = 0
            \<or> (\<exists>f tv. PushA f tv \<in> set prog \<and> k < unat (fd_len f)
                  \<and> d ! k = fd_data f ! k))
      \<and> (t = 0 \<or> (\<exists>f tv. PushA f tv \<in> set prog \<and> t = timestamp_of tv))"
    if "Some (i, l, d, t) \<in> set (returned s)" for i l d t
  proof -
    from inv that have ok: "frame_ok prog (i, l, d, t)" by (simp add: fields_inv_def)
    then have idf: "id_from prog i" by (simp add: frame_ok_def)
    have "i AND CAN_EFF_FLAG = 0 \<and> i AND CAN_RTR_FLAG = 0 \<and> i AND CAN_ERR_FLAG = 0"
      using idf mask_clears_flags by (auto simp: id_from_def)
    then show ?thesis
      using ok unfolding frame_ok_def id_from_def len_from_def ts_from_def byte_from_def
      by simp
  qed
  with ex show ?thesis by blast
qed

theorem popped_frame_fields_witness:
  "map_sum id returned (exec example_schedule (initial example_program 2))
     = Inr [None, Some (0x123, 2, [0x11, 0x22], 1782579200129453 / 1048576)]
   \<and> (0x123 :: 32 word) AND CAN_EFF_FLAG = 0
   \<and> (\<exists>f tv. PushA f tv \<in> set example_program
         \<and> (0x123 :: 32 word) = can_id f AND CAN_EXTENDED_ID_MASK)
   \<and> (\<exists>f tv. PushA f tv \<in> set example_program
         \<and> (1782579200129453 / 1048576 :: rat) = timestamp_of tv)"
proof -
  have cl: "\<forall>a \<in> set example_program. classic_action a"
    by (simp add: example_program_def example_frame_def)
  from popped_frame_fields[OF cl, of example_schedule 2] obtain s where
    ex: "exec example_schedule (initial example_program 2) = Inr s"
    and all: "\<And>i l d t. Some (i, l, d, t) \<in> set (returned s) \<Longrightarrow>
        i AND CAN_EFF_FLAG = 0
        \<and> (i = 0 \<or> (\<exists>f tv. PushA f tv \<in> set example_program
                       \<and> i = can_id f AND CAN_EXTENDED_ID_MASK))
        \<and> (t = 0 \<or> (\<exists>f tv. PushA f tv \<in> set example_program \<and> t = timestamp_of tv))"
    by blast
  from example_run ex
  have r: "returned s = [None, Some (0x123, 2, [0x11, 0x22], 1782579200129453 / 1048576)]"
    by simp
  from all[of "0x123" 2 "[0x11, 0x22]" "1782579200129453 / 1048576"] r example_run
  show ?thesis by simp
qed

text \<open>
  C3, the claim as stated, fails: a frame received with the extended-frame flag
  set in its \<^verbatim>\<open>can_id\<close> (0x80000123) is returned by the pop with identifier
  0x123, in which that bit is 0.
\<close>

theorem eff_flag_counterexample:
  "map_sum id returned (exec example_schedule (initial example_program 2))
     = Inr [None, Some (0x123, 2, [0x11, 0x22], 1782579200129453 / 1048576)]
   \<and> can_id (example_frame 291) = 0x80000123
   \<and> can_id (example_frame 291) AND CAN_EFF_FLAG = CAN_EFF_FLAG
   \<and> (0x123 :: 32 word) AND CAN_EFF_FLAG = 0"
  using example_run by (simp add: example_frame_def CAN_EFF_FLAG_def)

text \<open>
  C9 (as the code has it). One call of \<^verbatim>\<open>loop\<close> from the start of the program,
  that is \<^verbatim>\<open>init_buffer\<close> and then pushes of frames of at most 8 bytes, against
  any number of pops, the statements of the two threads interleaved by any
  schedule in which no pop reads a slot (line 865) that a push has begun and not
  finished writing. The run goes through, and the frames the pops have returned
  are a subsequence of the frames whose push is complete: they come out in push
  order, none twice, and none before the last statement of its push is done.
\<close>

theorem spsc_pop_order:
  assumes "\<forall>a \<in> set acts. classic_push a"
    and "untorn sched (initial (InitA # acts) n)"
  shows "\<exists>s. exec sched (initial (InitA # acts) n) = Inr s
     \<and> subseq (somes (returned s)) (action_views (completed (InitA # acts) s))"
proof -
  have "init_phase acts (initial (InitA # acts) n)" by (simp add: init_phase_def initial_def)
  then have "init_phase acts (initial (InitA # acts) n)
      \<or> (\<exists>c. order_inv c (initial (InitA # acts) n)
               \<and> c @ program (initial (InitA # acts) n) = acts)" ..
  from exec_order[OF assms(1) assms(2) this] obtain s where
    ex: "exec sched (initial (InitA # acts) n) = Inr s"
    and i: "init_phase acts s \<or> (\<exists>c. order_inv c s \<and> c @ program s = acts)" by blast
  from i have "subseq (somes (returned s)) (action_views (completed (InitA # acts) s))"
  proof
    assume "init_phase acts s"
    then show ?thesis by (simp add: init_phase_def)
  next
    assume "\<exists>c. order_inv c s \<and> c @ program s = acts"
    then obtain c where c: "order_inv c s" and e: "c @ program s = acts" by blast
    have "completed (InitA # acts) s = InitA # c"
      unfolding completed_def e[symmetric] by (simp add: Suc_diff_le)
    then show ?thesis using order_inv_subseq[OF c] by simp
  qed
  with ex show ?thesis by blast
qed

theorem spsc_pop_order_witness:
  "map_sum id returned (exec example_schedule (initial example_program 2))
     = Inr [None, Some (0x123, 2, [0x11, 0x22], 1782579200129453 / 1048576)]
   \<and> (\<exists>s. exec example_schedule (initial example_program 2) = Inr s
         \<and> subseq (somes (returned s)) (action_views (completed example_program s)))"
proof -
  have cl: "\<forall>a \<in> set [PushA (example_frame 291) example_stamp]. classic_push a"
    by (simp add: example_frame_def)
  have u: "untorn example_schedule
             (initial (InitA # [PushA (example_frame 291) example_stamp]) 2)"
    using example_untorn by (simp add: example_program_def)
  from spsc_pop_order[OF cl u] example_run show ?thesis by (simp add: example_program_def)
qed

text \<open>
  C9, the claim as stated, fails: \<^verbatim>\<open>loop\<close> runs with the interpreter lock released
  and nothing else keeps the two threads apart, so a pop can be overtaken. In
  this run the pop passes its test with 255 frames unread; the producer completes
  frame 255, which brings the write cursor onto the read cursor, and stores the
  identifier of frame 256 in slot 0; the pop then returns identifier 256 with the
  length, payload and timestamp of frame 0. Of the push of frame 256 one
  statement of five is done, and no push wrote the frame returned.
\<close>

theorem tear_counterexample:
  "map_sum id (\<lambda>s. (returned s, program s, ppc s))
       (exec tear_schedule (initial tear_program 1))
     = Inr ([Some (256, 2, [0, 0], 0)], [PushA (seq_frame 256) example_tv], 1)
   \<and> (256, 2, [0, 0], 0) \<notin> set (action_views tear_program)"
  using tear_run torn_not_pushed by simp

text \<open>
  C4 (as the code has it). The timeout that reaches \<^verbatim>\<open>epoll_wait\<close> is 0
  milliseconds: the constant 0.2 loses its fractional part on the way into the
  \<^verbatim>\<open>int\<close> parameter, so the wait returns at once instead of blocking for about
  200 ms.
\<close>

theorem epoll_wait_timeout_is_zero: "epoll_wait_timeout = 0"
  by (simp add: epoll_wait_timeout_def double_to_int_def DEFAULT_TIMEOUT_def floor_eq_iff)

text \<open>
  C8. A receive whose byte count is neither \<^verbatim>\<open>CAN_MTU\<close> nor \<^verbatim>\<open>CANFD_MTU\<close> ends
  the loop with the error outcome: for every non-negative count whatever the
  settings, and for every return value at all under the loop's own setting of
  \<^verbatim>\<open>down_causes_exit\<close>. The classic size selects a maximum data length of 8 bytes,
  the FD size one of 64 bytes.
\<close>

theorem receive_size_check:
  "(0 \<le> nbytes \<and> nbytes \<noteq> int CAN_MTU \<and> nbytes \<noteq> int CANFD_MTU
      \<longrightarrow> check_received dce errno nbytes = Inl SystemError)
   \<and> (nbytes \<noteq> int CAN_MTU \<and> nbytes \<noteq> int CANFD_MTU
      \<longrightarrow> check_received down_causes_exit errno nbytes = Inl SystemError)
   \<and> check_received dce errno (int CAN_MTU) = Inr (Decode 8)
   \<and> check_received dce errno (int CANFD_MTU) = Inr (Decode 64)"
  by (auto simp: check_received_def down_causes_exit_def CAN_MTU_def CANFD_MTU_def
      CAN_MAX_DLEN_def CANFD_MAX_DLEN_def)

theorem receive_size_check_witness:
  "check_received False ENETDOWN 15 = Inl SystemError
   \<and> check_received down_causes_exit ENETDOWN (- 1) = Inl SystemError
   \<and> check_received False ENETDOWN 16 = Inr (Decode 8)
   \<and> check_received False ENETDOWN 72 = Inr (Decode 64)"
  using receive_size_check [of 15 False ENETDOWN]
    receive_size_check [of "- 1" False ENETDOWN]
  by (simp add: CAN_MTU_def CANFD_MTU_def)

text \<open>
  C5 (as the code has it). The token \<^verbatim>\<open>12345678:DFFFFFFF\<close> compiles to an accept
  rule whose id has the extended-frame flag OR'd in. The token \<^verbatim>\<open>123:7FF\<close> is
  seven characters long, so the byte the code tests at offset 8 lies one past its
  terminator: when that byte is not a colon, the rule is id 0x123, mask 0x7FF,
  flag unset. In general, for a token made of one to eight bare hexadecimal
  digits, \<^verbatim>\<open>:\<close> or \<^verbatim>\<open>~\<close>, and one to eight bare hexadecimal digits (and, when it is
  shorter than 8 characters, a byte at offset 8 that is not the separator), the
  rule's mask is the second number with the error flag cleared, its id has the
  first number in its low 29 bits, and the extended-frame flag is set in it
  exactly when the identifier has 8 digits.
\<close>

theorem filter_compile:
  "parse_filter after fs ''12345678:DFFFFFFF''
     = Inr (fs\<lparr>rfilter := rfilter fs @
              [\<lparr>filter_can_id = 0x12345678 OR CAN_EFF_FLAG, filter_can_mask = 0xDFFFFFFF\<rparr>]\<rparr>)
   \<and> (after 0 \<noteq> CHR '':'' \<longrightarrow>
        parse_filter after fs ''123:7FF''
          = Inr (fs\<lparr>rfilter := rfilter fs @
                   [\<lparr>filter_can_id = 0x123, filter_can_mask = 0x7FF\<rparr>]\<rparr>)
        \<and> (0x123 :: 32 word) AND CAN_EFF_FLAG = 0)
   \<and> (\<forall>ds ms sep.
         hex_token ds \<and> hex_token ms \<and> (sep = CHR '':'' \<or> sep = CHR ''~'')
         \<and> (8 \<le> length ds + 1 + length ms
              \<or> after (7 - (length ds + 1 + length ms)) \<noteq> sep)
         \<longrightarrow> (\<exists>r. parse_filter after fs (ds @ sep # ms)
                       = Inr (fs\<lparr>rfilter := rfilter fs @ [r]\<rparr>)
                  \<and> filter_can_mask r = of_nat (hexval 0 ms) AND NOT CAN_ERR_FLAG
                  \<and> filter_can_id r AND CAN_EXTENDED_ID_MASK
                      = of_nat (hexval 0 ds) AND CAN_EXTENDED_ID_MASK
                  \<and> (filter_can_id r AND CAN_EFF_FLAG = CAN_EFF_FLAG
                       \<longleftrightarrow> length ds = 8)))"
proof (intro conjI allI impI)
  show "parse_filter after fs ''12345678:DFFFFFFF''
     = Inr (fs\<lparr>rfilter := rfilter fs @
              [\<lparr>filter_can_id = 0x12345678 OR CAN_EFF_FLAG, filter_can_mask = 0xDFFFFFFF\<rparr>]\<rparr>)"
    by (simp add: parse_filter_def sscanf_x_sep_x_def scan_x_def isspace_def isxdigit_def
        xdigit_def byte_at_def CAN_EFF_FLAG_def CAN_ERR_FLAG_def Let_def)
next
  assume "after 0 \<noteq> CHR '':''"
  then show "parse_filter after fs ''123:7FF''
          = Inr (fs\<lparr>rfilter := rfilter fs @
                   [\<lparr>filter_can_id = 0x123, filter_can_mask = 0x7FF\<rparr>]\<rparr>)"
    by (simp add: parse_filter_def sscanf_x_sep_x_def scan_x_def isspace_def isxdigit_def
        xdigit_def byte_at_def CAN_EFF_FLAG_def CAN_ERR_FLAG_def Let_def)
next
  show "(0x123 :: 32 word) AND CAN_EFF_FLAG = 0" by (simp add: CAN_EFF_FLAG_def)
next
  fix ds ms sep
  assume a: "hex_token ds \<and> hex_token ms \<and> (sep = CHR '':'' \<or> sep = CHR ''~'')
         \<and> (8 \<le> length ds + 1 + length ms
              \<or> after (7 - (length ds + 1 + length ms)) \<noteq> sep)"
  then have d: "hex_token ds" and m: "hex_token ms"
    and sep: "sep = CHR '':'' \<or> sep = CHR ''~''"
    and mem: "8 \<le> length ds + 1 + length ms \<or> after (7 - (length ds + 1 + length ms)) \<noteq> sep"
    by simp_all
  define base :: "32 word"
    where "base = of_nat (hexval 0 ds) OR (if sep = CHR ''~'' then CAN_INV_FILTER else 0)"
  define r where "r = \<lparr>filter_can_id = (if length ds = 8 then base OR CAN_EFF_FLAG else base),
                        filter_can_mask = of_nat (hexval 0 ms) AND NOT CAN_ERR_FLAG\<rparr>"
  have p: "parse_filter after fs (ds @ sep # ms) = Inr (fs\<lparr>rfilter := rfilter fs @ [r]\<rparr>)"
    using parse_hex_pair[where after = after and fs = fs, OF d m sep mem]
    by (simp add: r_def base_def)
  have flags: "CAN_EFF_FLAG AND CAN_EXTENDED_ID_MASK = 0"
    "CAN_INV_FILTER AND CAN_EXTENDED_ID_MASK = 0"
    by (simp_all add: CAN_EFF_FLAG_def CAN_INV_FILTER_def CAN_EXTENDED_ID_MASK_def)
  have low: "filter_can_id r AND CAN_EXTENDED_ID_MASK
      = of_nat (hexval 0 ds) AND CAN_EXTENDED_ID_MASK"
    by (simp add: r_def base_def word_ao_dist flags)
  have eff: "filter_can_id r AND CAN_EFF_FLAG = CAN_EFF_FLAG \<longleftrightarrow> length ds = 8"
  proof (cases "length ds = 8")
    case True
    then show ?thesis by (simp add: r_def eff_flag_set)
  next
    case False
    from small_id_no_eff[OF short_id_small[OF d False]]
    have "base AND CAN_EFF_FLAG = 0" by (simp add: base_def)
    then show ?thesis using False eff_flag_nonzero by (simp add: r_def)
  qed
  show "\<exists>r. parse_filter after fs (ds @ sep # ms)
                       = Inr (fs\<lparr>rfilter := rfilter fs @ [r]\<rparr>)
                  \<and> filter_can_mask r = of_nat (hexval 0 ms) AND NOT CAN_ERR_FLAG
                  \<and> filter_can_id r AND CAN_EXTENDED_ID_MASK
                      = of_nat (hexval 0 ds) AND CAN_EXTENDED_ID_MASK
                  \<and> (filter_can_id r AND CAN_EFF_FLAG = CAN_EFF_FLAG
                       \<longleftrightarrow> length ds = 8)"
    using p low eff by (intro exI[of _ r]) (simp add: r_def)
qed

theorem filter_compile_witness:
  "parse_filter zeros_after empty_filter_set ''123:7FF''
     = Inr (empty_filter_set\<lparr>rfilter := rfilter empty_filter_set @
              [\<lparr>filter_can_id = 0x123, filter_can_mask = 0x7FF\<rparr>]\<rparr>)
   \<and> (\<exists>r. parse_filter zeros_after empty_filter_set (''1234567'' @ CHR ''~'' # ''7F0'')
              = Inr (empty_filter_set\<lparr>rfilter := rfilter empty_filter_set @ [r]\<rparr>)
         \<and> filter_can_id r AND CAN_EFF_FLAG \<noteq> CAN_EFF_FLAG)
   \<and> (\<exists>r. parse_filter zeros_after empty_filter_set (''12345678'' @ CHR ''~'' # ''7F0'')
              = Inr (empty_filter_set\<lparr>rfilter := rfilter empty_filter_set @ [r]\<rparr>)
         \<and> filter_can_id r AND CAN_EFF_FLAG = CAN_EFF_FLAG)"
proof -
  note t = filter_compile[of zeros_after empty_filter_set]
  have z: "zeros_after 0 \<noteq> CHR '':''" by (simp add: zeros_after_def)
  have h: "hex_token ''1234567''" "hex_token ''12345678''" "hex_token ''7F0''"
    by (simp_all add: hex_token_def isxdigit_def xdigit_def)
  have m1: "8 \<le> length ''1234567'' + 1 + length ''7F0''
      \<or> zeros_after (7 - (length ''1234567'' + 1 + length ''7F0'')) \<noteq> CHR ''~''"
    and m2: "8 \<le> length ''12345678'' + 1 + length ''7F0''
      \<or> zeros_after (7 - (length ''12345678'' + 1 + length ''7F0'')) \<noteq> CHR ''~''"
    by simp_all
  from t z have 1: "parse_filter zeros_after empty_filter_set ''123:7FF''
     = Inr (empty_filter_set\<lparr>rfilter := rfilter empty_filter_set @
              [\<lparr>filter_can_id = 0x123, filter_can_mask = 0x7FF\<rparr>]\<rparr>)"
    by blast
  from t have g: "\<And>ds ms sep. hex_token ds \<Longrightarrow> hex_token ms \<Longrightarrow> sep = CHR '':'' \<or> sep = CHR ''~''
      \<Longrightarrow> 8 \<le> length ds + 1 + length ms
              \<or> zeros_after (7 - (length ds + 1 + length ms)) \<noteq> sep
      \<Longrightarrow> \<exists>r. parse_filter zeros_after empty_filter_set (ds @ sep # ms)
                = Inr (empty_filter_set\<lparr>rfilter := rfilter empty_filter_set @ [r]\<rparr>)
              \<and> (filter_can_id r AND CAN_EFF_FLAG = CAN_EFF_FLAG \<longleftrightarrow> length ds = 8)"
    by blast
  from g[OF h(1) h(3) _ m1] g[OF h(2) h(3) _ m2] 1 show ?thesis by simp
qed

text \<open>
  C5, the claim as stated, fails: the code tests the character at offset 8 of the
  token, not the number of digits of the identifier. \<^verbatim>\<open>%x\<close> accepts a \<^verbatim>\<open>0x\<close>
  prefix, so \<^verbatim>\<open>0x123456:7FF\<close>, an identifier of six digits, gets the flag, and
  \<^verbatim>\<open>0x12345678:7FF\<close>, one of eight digits, does not.
\<close>

theorem filter_position_counterexample:
  "parse_filter zeros_after empty_filter_set ''0x123456:7FF''
     = Inr \<lparr>rfilter = [\<lparr>filter_can_id = 0x80123456, filter_can_mask = 0x7FF\<rparr>],
            join_filter = False, err_mask = 0\<rparr>
   \<and> (0x80123456 :: 32 word) AND CAN_EFF_FLAG = CAN_EFF_FLAG
   \<and> parse_filter zeros_after empty_filter_set ''0x12345678:7FF''
     = Inr \<lparr>rfilter = [\<lparr>filter_can_id = 0x12345678, filter_can_mask = 0x7FF\<rparr>],
            join_filter = False, err_mask = 0\<rparr>
   \<and> (0x12345678 :: 32 word) AND CAN_EFF_FLAG = 0"
  by (simp add: parse_filter_def sscanf_x_sep_x_def scan_x_def isspace_def isxdigit_def
      xdigit_def byte_at_def CAN_EFF_FLAG_def CAN_ERR_FLAG_def Let_def zeros_after_def
      empty_filter_set_def)

text \<open>
  C6. On a miss, that is when no slot of the cache holds the index looked up, the
  sweep frees exactly the occupied slots whose index no longer resolves to a
  name; the new index then goes into the first slot that is free after the sweep
  and that slot is returned; and the process exits with status 1, after the
  line \<^verbatim>\<open>Interface index cache only supports 30 interfaces.\<close> on \<^verbatim>\<open>stderr\<close>, if and
  only if no slot is free after the sweep.
\<close>

theorem idx2dindex_miss:
  assumes len: "length (dindex c) = MAXIFNAMES" and miss: "ifidx \<notin> set (dindex c)"
  shows "(0 \<notin> set (invalidate ifname (dindex c))
            \<longrightarrow> idx2dindex ifname junk c ifidx
                 = Inl (Exit1 (''Interface index cache only supports 30 interfaces.''
                               @ [CHR 0x0A])))
       \<and> (0 \<in> set (invalidate ifname (dindex c))
            \<longrightarrow> (\<exists>i c'. idx2dindex ifname junk c ifidx = Inr (i, c')
                   \<and> i < MAXIFNAMES
                   \<and> invalidate ifname (dindex c) ! i = 0
                   \<and> (\<forall>j < i. invalidate ifname (dindex c) ! j \<noteq> 0)
                   \<and> dindex c' = (invalidate ifname (dindex c))[i := ifidx]))"
proof -
  let ?sw = "invalidate ifname (dindex c)"
  have hit: "scan_hit (dindex c) ifidx 0 = None"
    by (rule scan_hit_miss) (use len miss in \<open>auto simp: in_set_conv_nth\<close>)
  obtain d ifr where sw: "sweep ifname (dindex c) junk 0 = (d, ifr)"
    by (cases "sweep ifname (dindex c) junk 0")
  have d: "d = ?sw" using sweep_fst[of 0 "dindex c" ifname junk] len sw by simp
  have lsw: "length ?sw = MAXIFNAMES" using len by (simp add: invalidate_def)
  from first_free_spec[of 0 d]
  have ff: "first_free d 0 \<le> MAXIFNAMES"
    "\<And>j. j < first_free d 0 \<Longrightarrow> d ! j \<noteq> 0"
    "first_free d 0 < MAXIFNAMES \<Longrightarrow> d ! first_free d 0 = 0"
    by auto
  show ?thesis
  proof (cases "first_free d 0 = MAXIFNAMES")
    case True
    have "0 \<notin> set ?sw"
      using ff(2) True lsw unfolding d by (auto simp: in_set_conv_nth)
    moreover have "idx2dindex ifname junk c ifidx
        = Inl (Exit1 (''Interface index cache only supports 30 interfaces.'' @ [CHR 0x0A]))"
      using hit sw True by (simp add: idx2dindex_def cache_full_message_def)
    ultimately show ?thesis by simp
  next
    case False
    then have lt: "first_free d 0 < MAXIFNAMES" using ff(1) by simp
    have z: "?sw ! first_free d 0 = 0" using ff(3)[OF lt] unfolding d .
    then have "0 \<in> set ?sw" using lt lsw by (metis nth_mem)
    moreover have "\<exists>c'. idx2dindex ifname junk c ifidx = Inr (first_free d 0, c')
        \<and> dindex c' = ?sw[first_free d 0 := ifidx]"
      using hit sw False d by (simp add: idx2dindex_def Let_def)
    ultimately show ?thesis using lt z ff(2) unfolding d by blast
  qed
qed

theorem idx2dindex_miss_witness:
  "(\<exists>i c'. idx2dindex example_ifname [] example_cache 5 = Inr (i, c')
      \<and> i < MAXIFNAMES
      \<and> invalidate example_ifname (dindex example_cache) ! i = 0
      \<and> dindex c' = (invalidate example_ifname (dindex example_cache))[i := 5])
   \<and> idx2dindex full_ifname [] full_cache 31
       = Inl (Exit1 (''Interface index cache only supports 30 interfaces.'' @ [CHR 0x0A]))"
proof -
  have len: "length (dindex example_cache) = MAXIFNAMES"
    by (simp add: example_cache_def MAXIFNAMES_def)
  have miss: "5 \<notin> set (dindex example_cache)"
    by (simp add: example_cache_def)
  have z: "0 \<in> set (invalidate example_ifname (dindex example_cache))"
    by (simp add: example_cache_def invalidate_def example_ifname_def)
  have len': "length (dindex full_cache) = MAXIFNAMES"
    by (simp add: full_cache_def MAXIFNAMES_def)
  have miss': "31 \<notin> set (dindex full_cache)"
    by (simp add: full_cache_def)
  have z': "0 \<notin> set (invalidate full_ifname (dindex full_cache))"
    by (simp add: full_cache_def invalidate_def full_ifname_def)
  from idx2dindex_miss[OF len miss, of example_ifname "[]"] z
    idx2dindex_miss[OF len' miss', of full_ifname "[]"] z'
  show ?thesis by blast
qed



text \<open>
  C10 (as the code has it). When the destination buffer does not overlap the
  source buffer, \<^verbatim>\<open>reverse_endian\<close> writes \<open>dst[k] = src[len - 1 - k]\<close> for every
  \<open>k < len\<close> and leaves the source as it was; a second call from that
  destination into a buffer that does not overlap it (the source itself, for
  one) yields the original byte order.
\<close>

theorem reverse_endian_disjoint:
  assumes "disjoint_bufs src dst cnt" and "disjoint_bufs dst back cnt"
  shows "(\<forall>k < nat cnt. reverse_endian m src dst cnt (dst + k) = m (src + (nat cnt - 1 - k)))
       \<and> (\<forall>k < nat cnt. reverse_endian m src dst cnt (src + k) = m (src + k))
       \<and> (\<forall>k < nat cnt.
             reverse_endian (reverse_endian m src dst cnt) dst back cnt (back + k)
               = m (src + k))"
proof -
  let ?r1 = "reverse_endian m src dst cnt"
  note s1 = reverse_endian_spec[OF assms(1), of m]
  note s2 = reverse_endian_spec[OF assms(2), of ?r1]
  have a: "?r1 (dst + k) = m (src + (nat cnt - 1 - k))" if "k < nat cnt" for k
    using s1 that by blast
  have b: "?r1 (src + k) = m (src + k)" if "k < nat cnt" for k
  proof -
    have "\<forall>j < nat cnt. src + k \<noteq> dst + j"
      using assms(1) that unfolding disjoint_bufs_def by auto
    with s1 show ?thesis by blast
  qed
  have c: "reverse_endian ?r1 dst back cnt (back + k) = m (src + k)" if "k < nat cnt" for k
  proof -
    have "reverse_endian ?r1 dst back cnt (back + k) = ?r1 (dst + (nat cnt - 1 - k))"
      using s2 that by blast
    also have "\<dots> = m (src + (nat cnt - 1 - (nat cnt - 1 - k)))"
      by (rule a) (use that in linarith)
    also have "nat cnt - 1 - (nat cnt - 1 - k) = k" using that by linarith
    finally show ?thesis .
  qed
  from a b c show ?thesis by blast
qed

theorem reverse_endian_disjoint_witness:
  "reverse_endian alias_mem 0 8 2 8 = 2 \<and> reverse_endian alias_mem 0 8 2 9 = 1
   \<and> reverse_endian alias_mem 0 8 2 0 = 1 \<and> reverse_endian alias_mem 0 8 2 1 = 2
   \<and> reverse_endian (reverse_endian alias_mem 0 8 2) 8 0 2 0 = 1
   \<and> reverse_endian (reverse_endian alias_mem 0 8 2) 8 0 2 1 = 2"
proof -
  have d1: "disjoint_bufs 0 8 2" and d2: "disjoint_bufs 8 0 2"
    by (simp_all add: disjoint_bufs_def)
  note t = reverse_endian_disjoint[OF d1 d2, of alias_mem]
  have k: "(0::nat) < nat 2" "(1::nat) < nat 2" by simp_all
  from t k have
    "reverse_endian alias_mem 0 8 2 (8 + 0) = alias_mem (0 + (nat 2 - 1 - 0))"
    "reverse_endian alias_mem 0 8 2 (8 + 1) = alias_mem (0 + (nat 2 - 1 - 1))"
    "reverse_endian alias_mem 0 8 2 (0 + 0) = alias_mem (0 + 0)"
    "reverse_endian alias_mem 0 8 2 (0 + 1) = alias_mem (0 + 1)"
    "reverse_endian (reverse_endian alias_mem 0 8 2) 8 0 2 (0 + 0) = alias_mem (0 + 0)"
    "reverse_endian (reverse_endian alias_mem 0 8 2) 8 0 2 (0 + 1) = alias_mem (0 + 1)"
    by blast+
  then show ?thesis by (simp add: alias_mem_def)
qed

text \<open>
  C10, the claim as stated, fails when the two pointers are the same buffer: with
  the bytes 1, 2 and \<open>len = 2\<close>, the call in place leaves 2, 2, so \<open>dst[1]\<close> is
  not the original \<open>src[0]\<close> and the source has changed.
\<close>

theorem reverse_endian_alias_counterexample:
  "alias_mem 0 = 1 \<and> alias_mem 1 = 2
   \<and> reverse_endian alias_mem 0 0 2 0 = 2 \<and> reverse_endian alias_mem 0 0 2 1 = 2"
  by (simp add: reverse_endian_def alias_mem_def rev_loop.simps)

end
